theory Spec2Isabelle
  imports Complex_Main "HOL-Library.Sublist"
begin

section \<open>The audio recording server (server_code/server.py)\<close>

text \<open>
  The server has three routes.  \<open>POST /api/audio\<close> reads a raw PCM body from the
  request stream, writes it to \<open>recordings/recording_<timestamp>.pcm\<close> and answers JSON;
  \<open>GET /api/recordings\<close> lists the stored \<open>.pcm\<close> files; \<open>GET /api/health\<close> is a constant.

  What lies outside the repository is an input of the model:
  \<^item> the request stream and the raw WSGI input are \<^emph>\<open>readers\<close>: a function that, asked for at
    most \<open>n\<close> bytes in a stream state, either returns a chunk of bytes and the next state or
    raises an exception (of which the model keeps \<open>str(e)\<close>) and the next state;
  \<^item> the wall clock is the already formatted timestamp \<open>strftime("%Y%m%d_%H%M%S")\<close>;
  \<^item> the recordings directory is a map from file names to contents for the upload route,
    together with the outcome of the one write the handler attempts (it succeeds, or it
    raises and leaves no file or a truncated one); for the listing route it is the list of
    directory entries in the order the scan yields them, each with the result of
    \<open>os.stat\<close> or the fact that \<open>os.stat\<close> raises;
  \<^item> a Python \<open>float\<close> is a sign and a magnitude, the magnitude being the rational number
    that the IEEE 754 binary64 value stands for; a quotient of integers and a decimal
    string are converted to the nearest binary64 value, ties to even, as CPython does;
  \<^item> of the log, the records of level WARNING and ERROR are kept (the INFO records format
    numbers and dictionaries and decide nothing).
\<close>

subsection \<open>Bytes, streams, requests\<close>

type_synonym bytes = string

datatype 's read_result = Data bytes 's | Raised string 's

type_synonym 's reader = "nat \<Rightarrow> 's \<Rightarrow> 's read_result"

datatype level = WARNING | ERROR

type_synonym log = "(level \<times> string) list"

record 's request =
  headers :: "string \<rightharpoonup> string"
  content_length :: "int option"
  stream :: "'s reader"
  wsgi_input :: "'s reader option"

text \<open>\<open>request.headers.get(key, default)\<close>; header names are looked up in lower case.\<close>

definition header_get :: "(string \<rightharpoonup> string) \<Rightarrow> string \<Rightarrow> string \<Rightarrow> string" where
  "header_get hs k d = (case hs k of None \<Rightarrow> d | Some v \<Rightarrow> v)"

text \<open>
  \<open>request.content_length and request.content_length > 0\<close>: the declared length when it is
  present, non-zero and positive.
\<close>

definition declared :: "int option \<Rightarrow> nat option" where
  "declared cl = (case cl of None \<Rightarrow> None
                  | Some n \<Rightarrow> if n \<noteq> 0 \<and> 0 < n then Some (nat n) else None)"

subsection \<open>The chunk-accumulation loop\<close>

definition chunk_size :: nat where
  "chunk_size = 16384"

definition max_size :: nat where
  "max_size = 10 * 1024 * 1024"

text \<open>
  \<^verbatim>\<open>
  while len(audio_data) < max_size:
      chunk = rd.read(chunk_size)
      if not chunk: break
      audio_data += chunk
  \<close>
  The result is the exception text if a read raised, the bytes accumulated so far, and the
  stream state.
\<close>

function read_chunks :: "'s reader \<Rightarrow> 's \<Rightarrow> bytes \<Rightarrow> (string option \<times> bytes) \<times> 's" where
  "read_chunks rd s audio_data =
     (if length audio_data < max_size then
        (case rd chunk_size s of
           Raised e s' \<Rightarrow> ((Some e, audio_data), s')
         | Data chunk s' \<Rightarrow>
             if chunk = [] then ((None, audio_data), s')
             else read_chunks rd s' (audio_data @ chunk))
      else ((None, audio_data), s))"
  by pat_completeness auto
termination
proof (relation "measure (\<lambda>(rd, s, audio_data). max_size - length audio_data)")
  fix rd :: "'s reader" and s :: 's and audio_data chunk :: bytes and s' :: 's
  assume "length audio_data < max_size" and "chunk \<noteq> []"
  then have "0 < length chunk" and "length audio_data < max_size"
    by simp_all
  then have "max_size - (length audio_data + length chunk) < max_size - length audio_data"
    by arith
  then show "((rd, s', audio_data @ chunk), (rd, s, audio_data))
      \<in> measure (\<lambda>(rd, s, audio_data). max_size - length audio_data)"
    by simp
qed simp

declare read_chunks.simps [simp del]

subsection \<open>Python strings\<close>

text \<open>
  Header values are Latin-1 strings, one \<open>char\<close> per code point.  \<open>str.lower()\<close> on
  Latin-1 moves \<open>A\<close>..\<open>Z\<close> and \<open>U+00C0\<close>..\<open>U+00DE\<close> (without the multiplication sign
  \<open>U+00D7\<close>) up by 32.
\<close>

definition lower_char :: "char \<Rightarrow> char" where
  "lower_char c = (let n = (of_char c :: nat) in
     if (65 \<le> n \<and> n \<le> 90) \<or> (192 \<le> n \<and> n \<le> 222 \<and> n \<noteq> 215) then char_of (n + 32) else c)"

definition lower :: "string \<Rightarrow> string" where
  "lower s = map lower_char s"

text \<open>\<open>needle in hay\<close> on strings.\<close>

fun contains :: "string \<Rightarrow> string \<Rightarrow> bool" where
  "contains needle [] = (needle = [])"
| "contains needle (c # cs) = (prefix needle (c # cs) \<or> contains needle cs)"

text \<open>
  \<open>repr\<close> of a string quotes it with \<open>'\<close> (with \<open>"\<close> when the string holds \<open>'\<close> and no
  \<open>"\<close>) and escapes the quote, the backslash and the unprintable characters.
\<close>

definition hex_digit :: "nat \<Rightarrow> char" where
  "hex_digit n = ''0123456789abcdef'' ! n"

definition repr_char :: "char \<Rightarrow> char \<Rightarrow> string" where
  "repr_char q c = (let n = (of_char c :: nat) in
     if c = q \<or> n = 92 then [CHR 0x5C, c]
     else if n = 9 then [CHR 0x5C, CHR ''t'']
     else if n = 10 then [CHR 0x5C, CHR ''n'']
     else if n = 13 then [CHR 0x5C, CHR ''r'']
     else if n < 32 \<or> n = 127 \<or> (128 \<le> n \<and> n \<le> 160) \<or> n = 173
       then [CHR 0x5C, CHR ''x'', hex_digit (n div 16), hex_digit (n mod 16)]
     else [c])"

definition py_repr :: "string \<Rightarrow> string" where
  "py_repr s = (let q = (if CHR 0x27 \<in> set s \<and> CHR 0x22 \<notin> set s then CHR 0x22 else CHR 0x27)
     in q # concat (map (repr_char q) s) @ [q])"

text \<open>\<open>str(n)\<close> for a natural number.\<close>

function show_nat :: "nat \<Rightarrow> string" where
  "show_nat n = (if n < 10 then [''0123456789'' ! n]
                 else show_nat (n div 10) @ [''0123456789'' ! (n mod 10)])"
  by pat_completeness auto
termination
  by (relation "measure (\<lambda>n. n)") auto

declare show_nat.simps [simp del]

subsection \<open>Exceptions\<close>

text \<open>
  The exceptions that the handler can meet once the body has been read, each with the text
  that \<open>str(e)\<close> gives.  \<open>OSError\<close> is what opening or writing the file raises; its text
  comes from the operating system.
\<close>

datatype exn = ValueError string | ZeroDivisionError | OverflowError string | OSError string

fun str_exn :: "exn \<Rightarrow> string" where
  "str_exn (ValueError m) = m"
| "str_exn ZeroDivisionError = ''division by zero''"
| "str_exn (OverflowError m) = m"
| "str_exn (OSError m) = m"

subsection \<open>The conversion of a string to an integer\<close>

text \<open>
  \<open>int(s)\<close> for a string, as \<open>PyLong_FromString\<close> reads it in base 10: leading whitespace,
  an optional sign, then the longest run of digits and underscores.  The run must not start
  with an underscore, hold two underscores in a row or end with one.  A run of more than
  4300 digits (the default of \<open>sys.get_int_max_str_digits()\<close>, leading zeros counted)
  raises \<open>ValueError\<close> with a text of its own, before what follows the run is looked at.
  The run must not be empty, and only whitespace may follow it.  Every other failure is
  \<open>ValueError("invalid literal for int() with base 10: %.200R")\<close>.  Whitespace is what
  \<open>Py_ISSPACE\<close> accepts, and the two Latin-1 spaces \<open>U+0085\<close> and \<open>U+00A0\<close>.
\<close>

definition invalid_literal :: "string \<Rightarrow> exn" where
  "invalid_literal s =
     ValueError (''invalid literal for int() with base 10: '' @ take 200 (py_repr s))"

definition int_max_str_digits :: nat where
  "int_max_str_digits = 4300"

definition digit_limit_exceeded :: "nat \<Rightarrow> exn" where
  "digit_limit_exceeded n =
     ValueError (''Exceeds the limit ('' @ show_nat int_max_str_digits
       @ '' digits) for integer string conversion: value has '' @ show_nat n
       @ '' digits; use sys.set_int_max_str_digits() to increase the limit'')"

definition is_space :: "char \<Rightarrow> bool" where
  "is_space c = ((of_char c :: nat) \<in> set [9, 10, 11, 12, 13, 32, 133, 160])"

definition is_digit :: "char \<Rightarrow> bool" where
  "is_digit c = (48 \<le> (of_char c :: nat) \<and> (of_char c :: nat) \<le> 57)"

definition digit_val :: "char \<Rightarrow> nat" where
  "digit_val c = of_char c - 48"

definition in_run :: "char \<Rightarrow> bool" where
  "in_run c = (is_digit c \<or> c = CHR ''_'')"

fun misplaced_underscore :: "string \<Rightarrow> bool" where
  "misplaced_underscore [] = False"
| "misplaced_underscore [c] = (c = CHR ''_'')"
| "misplaced_underscore (c # d # cs) =
     ((c = CHR ''_'' \<and> d = CHR ''_'') \<or> misplaced_underscore (d # cs))"

definition decimal_value :: "string \<Rightarrow> nat" where
  "decimal_value ds = foldl (\<lambda>acc c. 10 * acc + digit_val c) 0 ds"

definition py_int :: "string \<Rightarrow> exn + int" where
  "py_int s =
     (let t = dropWhile is_space s;
          minus = (case t of [] \<Rightarrow> False | c # cs \<Rightarrow> c = CHR ''-'');
          u = (case t of [] \<Rightarrow> []
               | c # cs \<Rightarrow> if c = CHR ''-'' \<or> c = CHR ''+'' then cs else t);
          run = takeWhile in_run u;
          rest = dropWhile in_run u;
          ds = filter is_digit run
      in if (case u of [] \<Rightarrow> False | c # cs \<Rightarrow> c = CHR ''_'') then Inl (invalid_literal s)
         else if misplaced_underscore run then Inl (invalid_literal s)
         else if int_max_str_digits < length ds then Inl (digit_limit_exceeded (length ds))
         else if run = [] then Inl (invalid_literal s)
         else if list_all is_space rest
           then Inr (if minus then - int (decimal_value ds) else int (decimal_value ds))
         else Inl (invalid_literal s))"

subsection \<open>Floating point\<close>

text \<open>
  \<open>n.bit_length()\<close>, and rounding a rational number to an integer, ties to even.
\<close>

function bit_length :: "nat \<Rightarrow> nat" where
  "bit_length n = (if n = 0 then 0 else Suc (bit_length (n div 2)))"
  by pat_completeness auto
termination
  by (relation "measure (\<lambda>n. n)") auto

declare bit_length.simps [simp del]

definition round_half_even :: "rat \<Rightarrow> int" where
  "round_half_even y = (let f = \<lfloor>y\<rfloor>; d = y - of_int f in
     if d < 1 / 2 then f else if 1 / 2 < d then f + 1 else if even f then f else f + 1)"

text \<open>
  The binary64 value nearest to \<open>a / b\<close> for natural numbers \<open>a\<close> and \<open>b > 0\<close>, ties to
  even, or \<open>None\<close> when it would be \<open>2 ^ 1024\<close> or more.  The exponent \<open>e\<close> of the binade of
  \<open>a / b\<close> is the difference of the bit lengths or one less; a binary64 value in that
  binade is a multiple of \<open>2 ^ (e - 52)\<close>, and of \<open>2 ^ - 1074\<close> in the subnormal range.
\<close>

definition nearest_double :: "nat \<Rightarrow> nat \<Rightarrow> rat option" where
  "nearest_double a b =
     (if a = 0 then Some 0
      else
        (let d = int (bit_length a) - int (bit_length b);
             e = (if 2 powi d * of_nat b \<le> (of_nat a :: rat) then d else d - 1);
             q = max (e - 52) (- 1074);
             y = of_int (round_half_even (of_nat a / (of_nat b * 2 powi q))) * 2 powi q
         in if y < 2 ^ 1024 then Some y else None))"

text \<open>A \<open>float\<close>: the sign bit and the magnitude (so that \<open>-0.0\<close> is not \<open>0.0\<close>).\<close>

datatype double = Double (sign_bit: bool) (magnitude: rat)

text \<open>
  \<open>a / b\<close> on integers is the correctly rounded quotient; it raises \<open>ZeroDivisionError\<close>
  for \<open>b = 0\<close> and \<open>OverflowError\<close> when the quotient is too large for a \<open>float\<close>.
\<close>

definition true_div :: "int \<Rightarrow> int \<Rightarrow> exn + double" where
  "true_div a b =
     (if b = 0 then Inl ZeroDivisionError
      else (case nearest_double (nat \<bar>a\<bar>) (nat \<bar>b\<bar>) of
              None \<Rightarrow> Inl (OverflowError ''integer division result too large for a float'')
            | Some y \<Rightarrow> Inr (Double ((a < 0) \<noteq> (b < 0)) y)))"

text \<open>
  \<open>round(x, 2)\<close> on a finite \<open>float\<close>: the exact value of \<open>x\<close> is rounded to a decimal
  with two places, ties to even, and that decimal is converted back to the nearest
  \<open>float\<close>.
\<close>

definition py_round2 :: "double \<Rightarrow> exn + double" where
  "py_round2 x =
     (case nearest_double (nat (round_half_even (magnitude x * 100))) 100 of
        None \<Rightarrow> Inl (OverflowError ''rounded value too large to represent'')
      | Some y \<Rightarrow> Inr (Double (sign_bit x) y))"

subsection \<open>POST /api/audio\<close>

record payload =
  filename :: string
  size_bytes :: nat
  duration_seconds :: double
  sample_rate :: string
  bits_per_sample :: string
  channels :: string

text \<open>
  A response is the JSON object and the HTTP code; \<open>details\<close> holds the fields that only
  the success object has.
\<close>

record response =
  http_code :: nat
  status :: string
  message :: string
  details :: "payload option"

record 's outcome =
  reply :: response
  files :: "string \<rightharpoonup> bytes"
  stream_state :: 's
  logged :: log

definition error_response :: "nat \<Rightarrow> string \<Rightarrow> response" where
  "error_response code msg =
     \<lparr>http_code = code, status = ''error'', message = msg, details = None\<rparr>"

text \<open>
  The primary read (lines 74 to 91): with a declared positive length one read of that many
  bytes, otherwise the chunk loop from the empty buffer.  An exception leaves
  \<open>audio_data\<close> as it was when the read raised.
\<close>

definition primary_read :: "'s request \<Rightarrow> 's \<Rightarrow> (string option \<times> bytes) \<times> 's \<times> log" where
  "primary_read req s =
     (case declared (content_length req) of
        Some n \<Rightarrow>
          (case stream req n s of
             Data d s' \<Rightarrow> ((None, d), s', [])
           | Raised e s' \<Rightarrow> ((Some e, []), s', []))
      | None \<Rightarrow>
          (case read_chunks (stream req) s [] of
             ((None, d), s') \<Rightarrow>
               ((None, d), s',
                if max_size \<le> length d
                then [(WARNING, ''Audio data exceeds 10MB limit, truncating'')] else [])
           | ((Some e, d), s') \<Rightarrow> ((Some e, d), s', [])))"

text \<open>
  The fallback (lines 95 to 108) reads from the raw WSGI input, if there is one, into the
  buffer the primary read left behind.
\<close>

definition fallback_read :: "'s request \<Rightarrow> bytes \<Rightarrow> 's \<Rightarrow> (string option \<times> bytes) \<times> 's" where
  "fallback_read req audio_data s =
     (case wsgi_input req of
        None \<Rightarrow> ((None, audio_data), s)
      | Some rd \<Rightarrow>
          (case declared (content_length req) of
             Some n \<Rightarrow>
               (case rd n s of
                  Data d s' \<Rightarrow> ((None, d), s')
                | Raised e s' \<Rightarrow> ((Some e, audio_data), s'))
           | None \<Rightarrow> read_chunks rd s audio_data))"

text \<open>
  The whole body-reading procedure: \<open>Inl\<close> is the text of the primary exception when the
  fallback raised too, \<open>Inr\<close> the bytes read.
\<close>

definition read_audio :: "'s request \<Rightarrow> 's \<Rightarrow> (string + bytes) \<times> 's \<times> log" where
  "read_audio req s =
     (case primary_read req s of
        ((None, audio_data), s1, lg) \<Rightarrow> (Inr audio_data, s1, lg)
      | ((Some stream_error, audio_data), s1, lg) \<Rightarrow>
          (case fallback_read req audio_data s1 of
             ((None, audio_data'), s2) \<Rightarrow>
               (Inr audio_data', s2,
                lg @ [(ERROR, ''Error reading audio stream: '' @ stream_error)])
           | ((Some fallback_error, audio_data'), s2) \<Rightarrow>
               (Inl stream_error, s2,
                lg @ [(ERROR, ''Error reading audio stream: '' @ stream_error),
                      (ERROR, ''Fallback also failed: '' @ fallback_error)])))"

text \<open>
  The one write of the handler (lines 129 and 130), \<open>open(filepath, 'wb')\<close> and
  \<open>f.write(audio_data)\<close>, either succeeds or raises.  When it raises, the text of the
  exception is kept, and how far the write came: \<open>None\<close> when the file could not be
  opened, so that the directory is as before, and \<open>Some k\<close> when the file was opened, and
  so created or emptied, and holds the first \<open>k\<close> bytes of the body.
\<close>

datatype write_result = Written | Write_raised string "nat option"

text \<open>
  Lines 135 to 139: the duration before rounding, or the exception raised on the way.
\<close>

definition duration :: "string \<Rightarrow> string \<Rightarrow> string \<Rightarrow> nat \<Rightarrow> exn + double" where
  "duration sample_rate_hdr bits_hdr channels_hdr len =
     (case py_int sample_rate_hdr of
        Inl e \<Rightarrow> Inl e
      | Inr sample_rate_int \<Rightarrow>
     (case py_int bits_hdr of
        Inl e \<Rightarrow> Inl e
      | Inr bits_per_sample_int \<Rightarrow>
     (case py_int channels_hdr of
        Inl e \<Rightarrow> Inl e
      | Inr channels_int \<Rightarrow>
          (let bytes_per_sample = (bits_per_sample_int div 8) * channels_int
           in true_div (int len) (sample_rate_int * bytes_per_sample)))))"

text \<open>Line 146: the duration as the success object carries it.\<close>

definition rounded_duration :: "string \<Rightarrow> string \<Rightarrow> string \<Rightarrow> nat \<Rightarrow> exn + double" where
  "rounded_duration sample_rate_hdr bits_hdr channels_hdr len =
     (case duration sample_rate_hdr bits_hdr channels_hdr len of
        Inl e \<Rightarrow> Inl e
      | Inr x \<Rightarrow> py_round2 x)"

text \<open>Lines 55 to 57: the audio parameters as header strings, with their defaults.\<close>

definition sample_rate_of :: "'s request \<Rightarrow> string" where
  "sample_rate_of req = header_get (headers req) ''x-audio-sample-rates'' ''16000''"

definition bits_per_sample_of :: "'s request \<Rightarrow> string" where
  "bits_per_sample_of req = header_get (headers req) ''x-audio-bits'' ''16''"

definition channels_of :: "'s request \<Rightarrow> string" where
  "channels_of req = header_get (headers req) ''x-audio-channel'' ''1''"

text \<open>Lines 124 and 125: the file name for a formatted timestamp.\<close>

definition recording_name :: "string \<Rightarrow> string" where
  "recording_name timestamp = ''recording_'' @ timestamp @ ''.pcm''"

text \<open>
  Lines 116 to 161, once the body has been read: the empty-body answer, the file write,
  then the duration and the success object; an exception on the way, from the write, from
  \<open>int\<close>, from the division or from \<open>round\<close>, is answered by the outer handler with
  code 500 and leaves the directory as it was when the exception was raised.
\<close>

definition store_and_reply ::
    "'s request \<Rightarrow> string \<Rightarrow> write_result \<Rightarrow> (string \<rightharpoonup> bytes) \<Rightarrow> bytes
       \<Rightarrow> response \<times> (string \<rightharpoonup> bytes) \<times> log" where
  "store_and_reply req timestamp wr fs audio_data =
     (if audio_data = [] then
        (error_response 400 ''No audio data received'', fs,
         [(WARNING, ''No audio data received'')])
      else
        (case wr of
           Write_raised e written \<Rightarrow>
             (error_response 500 (''Server error: '' @ e),
              (case written of
                 None \<Rightarrow> fs
               | Some k \<Rightarrow> fs(recording_name timestamp \<mapsto> take k audio_data)),
              [(ERROR, ''Error processing audio: '' @ e)])
         | Written \<Rightarrow>
             (let fs' = fs(recording_name timestamp \<mapsto> audio_data)
              in case rounded_duration (sample_rate_of req) (bits_per_sample_of req)
                        (channels_of req) (length audio_data) of
                   Inl e \<Rightarrow>
                     (error_response 500 (''Server error: '' @ str_exn e), fs',
                      [(ERROR, ''Error processing audio: '' @ str_exn e)])
                 | Inr d \<Rightarrow>
                     (\<lparr>http_code = 200, status = ''success'',
                       message = ''Audio received and saved'',
                       details = Some \<lparr>filename = recording_name timestamp,
                         size_bytes = length audio_data,
                         duration_seconds = d, sample_rate = sample_rate_of req,
                         bits_per_sample = bits_per_sample_of req,
                         channels = channels_of req\<rparr>\<rparr>,
                      fs', []))))"

definition content_type_warning :: "'s request \<Rightarrow> log" where
  "content_type_warning req =
     (let content_type = header_get (headers req) ''content-type'' []
      in if \<not> contains ''audio/pcm'' (lower content_type)
         then [(WARNING, ''Unexpected Content-Type: '' @ content_type)] else [])"

definition receive_audio ::
    "'s request \<Rightarrow> string \<Rightarrow> write_result \<Rightarrow> (string \<rightharpoonup> bytes) \<Rightarrow> 's \<Rightarrow> 's outcome" where
  "receive_audio req timestamp wr fs s =
     (case read_audio req s of
        (Inl stream_error, s', lg) \<Rightarrow>
          \<lparr>reply = error_response 400 (''Failed to read audio stream: '' @ stream_error),
           files = fs, stream_state = s', logged = content_type_warning req @ lg\<rparr>
      | (Inr audio_data, s', lg) \<Rightarrow>
          (case store_and_reply req timestamp wr fs audio_data of
             (r, fs', lg') \<Rightarrow>
               \<lparr>reply = r, files = fs', stream_state = s',
                logged = content_type_warning req @ lg @ lg'\<rparr>))"

subsection \<open>A scripted stream\<close>

text \<open>
  A concrete reader for evaluating the handler: the state is the list of events still to
  come, a segment of bytes or a failure; a read returns at most the bytes asked for from the
  first segment, and zero bytes at the end.
\<close>

datatype event = Bytes bytes | Fail string

fun script_read :: "event list reader" where
  "script_read n [] = Data [] []"
| "script_read n (Fail e # es) = Raised e es"
| "script_read n (Bytes b # es) =
     (if length b \<le> n then Data b es else Data (take n b) (Bytes (drop n b) # es))"

definition script_request :: "(string \<rightharpoonup> string) \<Rightarrow> int option \<Rightarrow> event list request" where
  "script_request hs cl =
     \<lparr>headers = hs, content_length = cl, stream = script_read, wsgi_input = Some script_read\<rparr>"

subsection \<open>GET /api/recordings\<close>

text \<open>
  What the directory scan sees of a file: its name, \<open>st_size\<close> and \<open>st_mtime\<close>.  The
  pattern \<open>*.pcm\<close> selects the names that end in \<open>.pcm\<close> (POSIX matching, which is case
  sensitive and takes names with a leading dot too).
\<close>

record dir_entry =
  file_name :: string
  st_size :: nat
  st_mtime :: rat

record recording =
  rec_filename :: string
  rec_size_bytes :: nat
  created :: string

record listing =
  listing_code :: nat
  listing_status :: string
  count :: nat
  recordings :: "recording list"

definition glob_pcm :: "dir_entry list \<Rightarrow> dir_entry list" where
  "glob_pcm dir = filter (\<lambda>e. suffix ''.pcm'' (file_name e)) dir"

text \<open>
  \<open>sorted(xs, key=f, reverse=True)\<close>: descending by key, elements with equal keys in their
  original order.
\<close>

definition sorted_reverse :: "('a \<Rightarrow> 'k::linorder) \<Rightarrow> 'a list \<Rightarrow> 'a list" where
  "sorted_reverse f xs = rev (sort_key f (rev xs))"

text \<open>
  \<open>isoformat\<close> stands for \<open>datetime.fromtimestamp(mtime).isoformat()\<close>, which depends on
  the local time zone.
\<close>

definition recording_of :: "(rat \<Rightarrow> string) \<Rightarrow> dir_entry \<Rightarrow> recording" where
  "recording_of isoformat file =
     \<lparr>rec_filename = file_name file, rec_size_bytes = st_size file,
      created = isoformat (st_mtime file)\<rparr>"

text \<open>The view on a directory in which every file can be examined with \<open>os.stat\<close>.\<close>

definition list_recordings :: "(rat \<Rightarrow> string) \<Rightarrow> dir_entry list \<Rightarrow> listing" where
  "list_recordings isoformat dir =
     (let recs = map (recording_of isoformat) (sorted_reverse st_mtime (glob_pcm dir))
      in \<lparr>listing_code = 200, listing_status = ''success'', count = length recs,
          recordings = recs\<rparr>)"

text \<open>
  In general \<open>os.stat\<close> can raise for a name that the scan yields (a symbolic link whose
  target is gone, say): a directory item is a name and the result of \<open>os.stat\<close>, size and
  modification time, or \<open>None\<close> when it raises.  The view has no \<open>try\<close>: the sort calls
  \<open>os.path.getmtime\<close> on every path that matches \<open>*.pcm\<close>, and when one of these calls
  raises, the exception leaves the view and the framework answers with code 500 and a
  page of its own.  The names that do not match are never examined.
\<close>

record dir_item =
  item_name :: string
  item_stat :: "(nat \<times> rat) option"

definition stat_entry :: "dir_item \<Rightarrow> dir_entry option" where
  "stat_entry i =
     (case item_stat i of
        None \<Rightarrow> None
      | Some (sz, mtime) \<Rightarrow>
          Some \<lparr>file_name = item_name i, st_size = sz, st_mtime = mtime\<rparr>)"


subsection \<open>Notions used to state the properties\<close>

text \<open>
  The quotient as the specification words it:
  \<open>byte_length / (sample_rate * channels * (bit_depth / 8))\<close> with the exact quotient
  \<open>bit_depth / 8\<close>.
\<close>

definition spec_quotient :: "int \<Rightarrow> int \<Rightarrow> int \<Rightarrow> nat \<Rightarrow> rat" where
  "spec_quotient sr bits ch len = of_nat len / (of_int sr * of_int ch * (of_int bits / 8))"

text \<open>
  The binary64 numbers: \<open>m * 2 ^ p\<close> with \<open>\<bar>m\<bar> < 2 ^ 53\<close> and \<open>- 1074 \<le> p \<le> 971\<close>.
\<close>

definition binary64 :: "rat \<Rightarrow> bool" where
  "binary64 z = (\<exists>m p. \<bar>m\<bar> < 2 ^ 53 \<and> - 1074 \<le> p \<and> p \<le> 971 \<and> z = of_int m * 2 powi p)"

text \<open>
  \<open>y\<close> is \<open>r\<close> rounded to binary64, to nearest and ties to even: no binary64 number is
  nearer to \<open>r\<close>, and if another one is as near, then \<open>y\<close> is the even one of the two, an even
  multiple of their distance.
\<close>

definition rounds_to_binary64 :: "rat \<Rightarrow> rat \<Rightarrow> bool" where
  "rounds_to_binary64 r y =
     (binary64 y \<and> (\<forall>z. binary64 z \<longrightarrow> \<bar>y - r\<bar> \<le> \<bar>z - r\<bar>)
      \<and> (\<forall>z. binary64 z \<and> z \<noteq> y \<and> \<bar>z - r\<bar> = \<bar>y - r\<bar> \<longrightarrow> (\<exists>n. y = of_int (2 * n) * \<bar>z - y\<bar>)))"

text \<open>\<open>k\<close> is \<open>r\<close> rounded to an integer, to nearest and ties to even.\<close>

definition rounds_to_integer :: "rat \<Rightarrow> int \<Rightarrow> bool" where
  "rounds_to_integer r k =
     (\<bar>of_int k - r\<bar> \<le> 1 / 2 \<and> (\<bar>of_int k - r\<bar> = 1 / 2 \<longrightarrow> even k))"

text \<open>
  What a stream delivers: the chunks that the first \<open>k\<close> successive reads of \<open>chunk_size\<close>
  bytes return, and the state after them.  The list is shorter than \<open>k\<close> when one of these
  reads raises.
\<close>

fun feed :: "'s reader \<Rightarrow> nat \<Rightarrow> 's \<Rightarrow> bytes list \<times> 's" where
  "feed rd 0 s = ([], s)"
| "feed rd (Suc k) s =
     (case rd chunk_size s of
        Data chunk s' \<Rightarrow> (case feed rd k s' of (cs, t) \<Rightarrow> (chunk # cs, t))
      | Raised e s' \<Rightarrow> ([], s))"

text \<open>A stream that never ends: every read returns as many copies of one byte as asked for.\<close>

definition endless_read :: "char \<Rightarrow> unit reader" where
  "endless_read c n s = Data (replicate n c) s"

definition endless_request :: "char \<Rightarrow> unit request" where
  "endless_request c =
     \<lparr>headers = Map.empty, content_length = None, stream = endless_read c,
      wsgi_input = Some (endless_read c)\<rparr>"

section \<open>Properties\<close>

subsection \<open>Evaluation on concrete requests\<close>

lemma floor_rat_numeral: "\<lfloor>(numeral a / numeral b :: rat)\<rfloor> = numeral a div numeral b"
  by (metis floor_divide_of_int_eq of_int_numeral)

lemmas float_eval =
  true_div_def py_round2_def nearest_double_def bit_length.simps round_half_even_def Let_def
  power_int_minus floor_rat_numeral

lemmas int_eval =
  py_int_def is_space_def is_digit_def in_run_def decimal_value_def digit_val_def
  int_max_str_digits_def invalid_literal_def py_repr_def repr_char_def Let_def

lemmas eval_defs =
  receive_audio_def read_audio_def primary_read_def fallback_read_def script_request_def
  declared_def read_chunks.simps max_size_def chunk_size_def store_and_reply_def
  header_get_def rounded_duration_def duration_def error_response_def
  content_type_warning_def lower_def lower_char_def sample_rate_of_def
  bits_per_sample_of_def channels_of_def recording_name_def int_eval float_eval

subsection \<open>The handler after the body has been read\<close>

lemma receive_audio_read:
  assumes "read_audio req s = (Inr audio_data, s', lg)"
  shows "reply (receive_audio req ts wr fs s) = fst (store_and_reply req ts wr fs audio_data)"
    and "files (receive_audio req ts wr fs s)
           = fst (snd (store_and_reply req ts wr fs audio_data))"
    and "stream_state (receive_audio req ts wr fs s) = s'"
    and "logged (receive_audio req ts wr fs s)
           = content_type_warning req @ lg @ snd (snd (store_and_reply req ts wr fs audio_data))"
  using assms by (simp_all add: receive_audio_def split: prod.splits)

lemma receive_audio_failed:
  assumes "read_audio req s = (Inl stream_error, s', lg)"
  shows "reply (receive_audio req ts wr fs s)
           = error_response 400 (''Failed to read audio stream: '' @ stream_error)"
    and "files (receive_audio req ts wr fs s) = fs"
    and "stream_state (receive_audio req ts wr fs s) = s'"
    and "logged (receive_audio req ts wr fs s) = content_type_warning req @ lg"
  using assms by (simp_all add: receive_audio_def)

lemma read_audio_cases:
  obtains (failed) e s' lg where "read_audio req s = (Inl e, s', lg)"
  | (read) d s' lg where "read_audio req s = (Inr d, s', lg)"
  by (cases "read_audio req s"; cases "fst (read_audio req s)") auto

lemma store_and_reply_empty:
  "store_and_reply req ts wr fs [] =
     (error_response 400 ''No audio data received'', fs, [(WARNING, ''No audio data received'')])"
  by (simp add: store_and_reply_def)

lemma store_and_reply_write_raised:
  assumes "audio_data \<noteq> []"
  shows "store_and_reply req ts (Write_raised e written) fs audio_data =
     (error_response 500 (''Server error: '' @ e),
      (case written of None \<Rightarrow> fs | Some k \<Rightarrow> fs(recording_name ts \<mapsto> take k audio_data)),
      [(ERROR, ''Error processing audio: '' @ e)])"
  using assms by (simp add: store_and_reply_def)

lemma store_and_reply_error:
  assumes "audio_data \<noteq> []"
    and "rounded_duration (sample_rate_of req) (bits_per_sample_of req) (channels_of req)
           (length audio_data) = Inl e"
  shows "store_and_reply req ts Written fs audio_data =
     (error_response 500 (''Server error: '' @ str_exn e),
      fs(recording_name ts \<mapsto> audio_data),
      [(ERROR, ''Error processing audio: '' @ str_exn e)])"
  using assms by (simp add: store_and_reply_def)

lemma store_and_reply_success:
  assumes "audio_data \<noteq> []"
    and "rounded_duration (sample_rate_of req) (bits_per_sample_of req) (channels_of req)
           (length audio_data) = Inr d"
  shows "store_and_reply req ts Written fs audio_data =
     (\<lparr>http_code = 200, status = ''success'', message = ''Audio received and saved'',
       details = Some \<lparr>filename = recording_name ts, size_bytes = length audio_data,
         duration_seconds = d, sample_rate = sample_rate_of req,
         bits_per_sample = bits_per_sample_of req, channels = channels_of req\<rparr>\<rparr>,
      fs(recording_name ts \<mapsto> audio_data), [])"
  using assms by (simp add: store_and_reply_def)

subsection \<open>The empty body\<close>

text \<open>
  Claim C4.  When the body-reading procedure yields zero bytes, the response is a client
  error (status \<open>error\<close>, HTTP 400) and the storage is left as it was: no file is created,
  and in particular no empty recording is stored.
\<close>

theorem empty_body_is_client_error:
  assumes "fst (read_audio req s) = Inr []"
  shows "http_code (reply (receive_audio req ts wr fs s)) = 400
       \<and> status (reply (receive_audio req ts wr fs s)) = ''error''
       \<and> message (reply (receive_audio req ts wr fs s)) = ''No audio data received''
       \<and> files (receive_audio req ts wr fs s) = fs"
proof -
  obtain s' lg where "read_audio req s = (Inr [], s', lg)"
    using assms by (cases "read_audio req s") auto
  then show ?thesis
    by (simp add: receive_audio_read store_and_reply_empty error_response_def)
qed

theorem empty_body_is_client_error_witness:
  "fst (read_audio (script_request Map.empty None) []) = Inr []
   \<and> http_code (reply (receive_audio (script_request Map.empty None) ''20240101_120000''
        Written Map.empty [])) = 400
   \<and> files (receive_audio (script_request Map.empty None) ''20240101_120000''
        Written Map.empty []) = Map.empty"
proof -
  have h: "fst (read_audio (script_request Map.empty None) []) = Inr []"
    by (simp add: eval_defs)
  show ?thesis
    using h empty_body_is_client_error [OF h, of "''20240101_120000''" Written Map.empty]
    by simp
qed

subsection \<open>What \<open>int\<close> raises\<close>

lemma length_filter_takeWhile: "length (filter P (takeWhile Q xs)) \<le> length (filter P xs)"
proof -
  have "length (filter P xs) = length (filter P (takeWhile Q xs @ dropWhile Q xs))"
    by simp
  then show ?thesis
    unfolding filter_append by simp
qed

lemma length_filter_dropWhile: "length (filter P (dropWhile Q xs)) \<le> length (filter P xs)"
proof -
  have "length (filter P xs) = length (filter P (takeWhile Q xs @ dropWhile Q xs))"
    by simp
  then show ?thesis
    unfolding filter_append by simp
qed

lemma length_filter_sign:
  "length (filter P (case t of [] \<Rightarrow> [] | c # cs \<Rightarrow> if Q c then cs else t))
     \<le> length (filter P t)"
  by (cases t) auto

lemma py_int_error:
  assumes "py_int h = Inl e"
  shows "e = invalid_literal h
       \<or> (\<exists>n. int_max_str_digits < n \<and> n \<le> length (filter is_digit h)
              \<and> e = digit_limit_exceeded n)"
proof -
  define u where "u = (case dropWhile is_space h of [] \<Rightarrow> []
      | c # cs \<Rightarrow> if c = CHR ''-'' \<or> c = CHR ''+'' then cs else dropWhile is_space h)"
  define n where "n = length (filter is_digit (takeWhile in_run u))"
  have "n \<le> length (filter is_digit u)"
    unfolding n_def by (rule length_filter_takeWhile)
  also have "\<dots> \<le> length (filter is_digit (dropWhile is_space h))"
    unfolding u_def by (rule length_filter_sign)
  also have "\<dots> \<le> length (filter is_digit h)"
    by (rule length_filter_dropWhile)
  finally have n: "n \<le> length (filter is_digit h)" .
  have "e = invalid_literal h \<or> (int_max_str_digits < n \<and> e = digit_limit_exceeded n)"
    using assms unfolding py_int_def Let_def u_def [symmetric] n_def [symmetric]
    by (auto split: if_splits)
  with n show ?thesis
    by blast
qed

lemma py_int_error_text:
  assumes "py_int h = Inl e"
  shows "length (filter is_digit h) \<le> 4300 \<longrightarrow>
           str_exn e = ''invalid literal for int() with base 10: '' @ take 200 (py_repr h)"
    and "str_exn e = ''invalid literal for int() with base 10: '' @ take 200 (py_repr h)
       \<or> (\<exists>n. 4300 < n \<and> n \<le> length (filter is_digit h)
              \<and> str_exn e = ''Exceeds the limit (4300 digits) for integer string conversion: ''
                   @ ''value has '' @ show_nat n
                   @ '' digits; use sys.set_int_max_str_digits() to increase the limit'')"
proof -
  have s: "show_nat 4300 = ''4300''"
    by (simp add: show_nat.simps)
  have i: "str_exn (invalid_literal h)
      = ''invalid literal for int() with base 10: '' @ take 200 (py_repr h)"
    by (simp add: invalid_literal_def)
  have d: "str_exn (digit_limit_exceeded n)
      = ''Exceeds the limit (4300 digits) for integer string conversion: ''
          @ ''value has '' @ show_nat n
          @ '' digits; use sys.set_int_max_str_digits() to increase the limit''" for n
    by (simp add: digit_limit_exceeded_def int_max_str_digits_def s)
  from py_int_error [OF assms] show "length (filter is_digit h) \<le> 4300 \<longrightarrow>
           str_exn e = ''invalid literal for int() with base 10: '' @ take 200 (py_repr h)"
    unfolding int_max_str_digits_def using i by auto
  from py_int_error [OF assms] show
      "str_exn e = ''invalid literal for int() with base 10: '' @ take 200 (py_repr h)
       \<or> (\<exists>n. 4300 < n \<and> n \<le> length (filter is_digit h)
              \<and> str_exn e = ''Exceeds the limit (4300 digits) for integer string conversion: ''
                   @ ''value has '' @ show_nat n
                   @ '' digits; use sys.set_int_max_str_digits() to increase the limit'')"
    unfolding int_max_str_digits_def using i d by blast
qed

lemma duration_cases:
  "duration a b c n =
     (if isl (py_int a) then Inl (projl (py_int a))
      else if isl (py_int b) then Inl (projl (py_int b))
      else if isl (py_int c) then Inl (projl (py_int c))
      else true_div (int n) (projr (py_int a) * (projr (py_int b) div 8 * projr (py_int c))))"
  by (auto simp: duration_def Let_def split: sum.splits)

lemma true_div_zero: "true_div a 0 = Inl ZeroDivisionError"
  by (simp add: true_div_def)

subsection \<open>Headers that are not integers\<close>

text \<open>
  The handler converts the three audio headers with \<open>int\<close> only after the file has been
  written, inside the outer \<open>try\<close>; whatever that raises is answered by the catch-all
  handler with code 500.  A request with a two-byte body and \<open>x-audio-bits: abc\<close> is
  therefore answered 500, not 400.
\<close>

theorem unparsable_header_is_client_error_counterexample:
  "fst (read_audio (script_request [''x-audio-bits'' \<mapsto> ''abc''] None) [Bytes ''ab'']) = Inr ''ab''
   \<and> isl (py_int (bits_per_sample_of (script_request [''x-audio-bits'' \<mapsto> ''abc''] None)))
   \<and> http_code (reply (receive_audio (script_request [''x-audio-bits'' \<mapsto> ''abc''] None)
        ''20240101_120000'' Written Map.empty [Bytes ''ab''])) = 500"
  by (simp add: eval_defs)

text \<open>
  Claim C1, as the code has it.  Take a request whose body is read as non-empty and
  written to its file.  If \<open>int\<close> rejects one of the headers \<open>x-audio-sample-rates\<close>,
  \<open>x-audio-bits\<close>, \<open>x-audio-channel\<close>, or if all three are accepted and
  \<open>sample_rate * ((bits // 8) * channels)\<close> is zero, the response has status \<open>error\<close>
  with HTTP code 500, and its message is \<open>Server error:\<close> followed by the text of the one
  exception raised: that of the first header rejected, in the order sample rate, bits,
  channels, and \<open>division by zero\<close> if none is rejected.  The text for a rejected header
  value with at most 4300 digits is \<open>invalid literal for int() with base 10:\<close> and the
  first 200 characters of the \<open>repr\<close> of the value; for a value with more digits it is
  that or the text about the limit of 4300 digits.
\<close>

theorem unparsable_header_is_server_error:
  fixes req :: "'s request"
  defines "a \<equiv> sample_rate_of req" and "b \<equiv> bits_per_sample_of req" and "c \<equiv> channels_of req"
  assumes "fst (read_audio req s) = Inr audio_data" and "audio_data \<noteq> []"
    and "isl (py_int a) \<or> isl (py_int b) \<or> isl (py_int c)
         \<or> projr (py_int a) * (projr (py_int b) div 8 * projr (py_int c)) = 0"
  shows "http_code (reply (receive_audio req ts Written fs s)) = 500
       \<and> status (reply (receive_audio req ts Written fs s)) = ''error''
       \<and> details (reply (receive_audio req ts Written fs s)) = None
       \<and> message (reply (receive_audio req ts Written fs s)) = ''Server error: '' @
           (if isl (py_int a) then str_exn (projl (py_int a))
            else if isl (py_int b) then str_exn (projl (py_int b))
            else if isl (py_int c) then str_exn (projl (py_int c))
            else ''division by zero'')
       \<and> (\<forall>h \<in> {a, b, c}. isl (py_int h) \<longrightarrow>
            (length (filter is_digit h) \<le> 4300 \<longrightarrow> str_exn (projl (py_int h))
                = ''invalid literal for int() with base 10: '' @ take 200 (py_repr h))
          \<and> (str_exn (projl (py_int h))
                = ''invalid literal for int() with base 10: '' @ take 200 (py_repr h)
             \<or> (\<exists>n. 4300 < n \<and> n \<le> length (filter is_digit h)
                  \<and> str_exn (projl (py_int h))
                    = ''Exceeds the limit (4300 digits) for integer string conversion: ''
                      @ ''value has '' @ show_nat n
                      @ '' digits; use sys.set_int_max_str_digits() to increase the limit'')))"
proof -
  obtain s' lg where rd: "read_audio req s = (Inr audio_data, s', lg)"
    using assms(4) by (cases "read_audio req s") auto
  define e where "e = (if isl (py_int a) then projl (py_int a)
            else if isl (py_int b) then projl (py_int b)
            else if isl (py_int c) then projl (py_int c)
            else ZeroDivisionError)"
  have "duration a b c (length audio_data) = Inl e"
    using assms(6) unfolding e_def by (auto simp: duration_cases true_div_zero)
  then have "rounded_duration a b c (length audio_data) = Inl e"
    by (simp add: rounded_duration_def)
  then have "reply (receive_audio req ts Written fs s)
      = error_response 500 (''Server error: '' @ str_exn e)"
    using rd assms(5) unfolding a_def b_def c_def
    by (simp add: receive_audio_read store_and_reply_error)
  then have 1: "http_code (reply (receive_audio req ts Written fs s)) = 500
       \<and> status (reply (receive_audio req ts Written fs s)) = ''error''
       \<and> details (reply (receive_audio req ts Written fs s)) = None
       \<and> message (reply (receive_audio req ts Written fs s)) = ''Server error: '' @
           (if isl (py_int a) then str_exn (projl (py_int a))
            else if isl (py_int b) then str_exn (projl (py_int b))
            else if isl (py_int c) then str_exn (projl (py_int c))
            else ''division by zero'')"
    unfolding e_def by (simp add: error_response_def)
  have 2: "(length (filter is_digit h) \<le> 4300 \<longrightarrow> str_exn (projl (py_int h))
                = ''invalid literal for int() with base 10: '' @ take 200 (py_repr h))
          \<and> (str_exn (projl (py_int h))
                = ''invalid literal for int() with base 10: '' @ take 200 (py_repr h)
             \<or> (\<exists>n. 4300 < n \<and> n \<le> length (filter is_digit h)
                  \<and> str_exn (projl (py_int h))
                    = ''Exceeds the limit (4300 digits) for integer string conversion: ''
                      @ ''value has '' @ show_nat n
                      @ '' digits; use sys.set_int_max_str_digits() to increase the limit''))"
    if "isl (py_int h)" for h
  proof -
    from that have "py_int h = Inl (projl (py_int h))"
      by simp
    from py_int_error_text [OF this] show ?thesis
      by (rule conjI)
  qed
  from 1 2 show ?thesis
    by blast
qed

theorem unparsable_header_is_server_error_witness:
  "fst (read_audio (script_request [''x-audio-bits'' \<mapsto> ''abc''] None) [Bytes ''ab'']) = Inr ''ab''
   \<and> isl (py_int (bits_per_sample_of (script_request [''x-audio-bits'' \<mapsto> ''abc''] None)))
   \<and> http_code (reply (receive_audio (script_request [''x-audio-bits'' \<mapsto> ''abc''] None)
        ''20240101_120000'' Written Map.empty [Bytes ''ab''])) = 500
   \<and> message (reply (receive_audio (script_request [''x-audio-bits'' \<mapsto> ''abc''] None)
        ''20240101_120000'' Written Map.empty [Bytes ''ab'']))
        = ''Server error: invalid literal for int() with base 10: '' @ [CHR 0x27] @ ''abc''
            @ [CHR 0x27]"
proof -
  let ?req = "script_request [''x-audio-bits'' \<mapsto> ''abc''] None"
  have h1: "fst (read_audio ?req [Bytes ''ab'']) = Inr ''ab''"
    by (simp add: eval_defs)
  have h2: "''ab'' \<noteq> []"
    by simp
  have h3: "isl (py_int (bits_per_sample_of ?req))"
    by (simp add: eval_defs)
  then have h3': "isl (py_int (sample_rate_of ?req)) \<or> isl (py_int (bits_per_sample_of ?req))
      \<or> isl (py_int (channels_of ?req))
      \<or> projr (py_int (sample_rate_of ?req))
          * (projr (py_int (bits_per_sample_of ?req)) div 8 * projr (py_int (channels_of ?req))) = 0"
    by simp
  have h4: "\<not> isl (py_int (sample_rate_of ?req))"
    by (simp add: eval_defs)
  have h5: "str_exn (projl (py_int (bits_per_sample_of ?req)))
      = ''invalid literal for int() with base 10: '' @ [CHR 0x27] @ ''abc'' @ [CHR 0x27]"
    by (simp add: eval_defs)
  show ?thesis
    using h1 h3 h4 h5
      unparsable_header_is_server_error [OF h1 h2 h3', of "''20240101_120000''" Map.empty]
    by simp
qed

subsection \<open>Which requests leave a file\<close>

text \<open>
  The file is written (lines 129 and 130) before the headers are converted, so a request
  that is answered with an error because of its headers has stored its body all the same.
\<close>

theorem failed_request_leaves_no_file_counterexample:
  "status (reply (receive_audio (script_request [''x-audio-channel'' \<mapsto> ''mono''] None)
        ''20240101_120000'' Written Map.empty [Bytes ''ab''])) = ''error''
   \<and> files (receive_audio (script_request [''x-audio-channel'' \<mapsto> ''mono''] None)
        ''20240101_120000'' Written Map.empty [Bytes ''ab'']) ''recording_20240101_120000.pcm''
       = Some ''ab''
   \<and> files (receive_audio (script_request [''x-audio-channel'' \<mapsto> ''mono''] None)
        ''20240101_120000'' Written Map.empty [Bytes ''ab'']) \<noteq> Map.empty"
proof -
  let ?out = "receive_audio (script_request [''x-audio-channel'' \<mapsto> ''mono''] None)
        ''20240101_120000'' Written Map.empty [Bytes ''ab'']"
  have "status (reply ?out) = ''error''"
    by (simp add: eval_defs)
  moreover have stored: "files ?out ''recording_20240101_120000.pcm'' = Some ''ab''"
    by (simp add: eval_defs)
  moreover have "files ?out \<noteq> Map.empty"
  proof
    assume "files ?out = Map.empty"
    then have "files ?out ''recording_20240101_120000.pcm'' = None"
      by simp
    with stored show False
      by simp
  qed
  ultimately show ?thesis
    by simp
qed

text \<open>
  Claim C2, as the code has it.  A request answered with HTTP 400 (the read failed and so
  did the fallback, or the body was empty) leaves the storage unchanged.  Every other
  request has read a non-empty body and touched no file but \<open>recording_<timestamp>.pcm\<close>.
  If it is answered 200, the write succeeded and that file holds the whole body.  If it is
  answered 500, the storage is as it was when the exception was raised: unchanged if the
  file could not be opened, the file holding the part of the body already written if the
  write raised, and the file holding the whole body if the exception came after the write,
  from the conversion of the headers or from the division.  The status is \<open>success\<close>
  exactly for code 200, and the code is one of 200, 400 and 500.
\<close>

theorem storage_after_request:
  fixes req :: "'s request" and ts :: string and wr :: write_result
    and fs :: "string \<rightharpoonup> bytes" and s :: 's
  defines "out \<equiv> receive_audio req ts wr fs s"
  shows "(http_code (reply out) = 400 \<longrightarrow> files out = fs)
       \<and> (http_code (reply out) \<noteq> 400 \<longrightarrow>
            (\<exists>d. d \<noteq> [] \<and> fst (read_audio req s) = Inr d
                 \<and> files out =
                     (case wr of
                        Written \<Rightarrow> fs(recording_name ts \<mapsto> d)
                      | Write_raised e None \<Rightarrow> fs
                      | Write_raised e (Some k) \<Rightarrow> fs(recording_name ts \<mapsto> take k d))))
       \<and> (http_code (reply out) = 200 \<longrightarrow> wr = Written)
       \<and> (status (reply out) = ''success'' \<longleftrightarrow> http_code (reply out) = 200)
       \<and> (http_code (reply out) = 200 \<or> http_code (reply out) = 400
            \<or> http_code (reply out) = 500)"
proof (cases rule: read_audio_cases [of req s])
  case (failed e s' lg)
  then show ?thesis
    unfolding out_def by (simp add: receive_audio_failed error_response_def)
next
  case (read d s' lg)
  show ?thesis
  proof (cases "d = []")
    case True
    with read show ?thesis
      unfolding out_def by (simp add: receive_audio_read store_and_reply_empty error_response_def)
  next
    case False
    show ?thesis
    proof (cases wr)
      case (Write_raised e written)
      with read False show ?thesis
        unfolding out_def
        by (cases written)
          (simp_all add: receive_audio_read store_and_reply_write_raised error_response_def)
    next
      case Written
      show ?thesis
      proof (cases "rounded_duration (sample_rate_of req) (bits_per_sample_of req)
          (channels_of req) (length d)")
        case (Inl e)
        with read False Written show ?thesis
          unfolding out_def
          by (simp add: receive_audio_read store_and_reply_error error_response_def)
      next
        case (Inr q)
        with read False Written show ?thesis
          unfolding out_def
          by (simp add: receive_audio_read store_and_reply_success)
      qed
    qed
  qed
qed

theorem storage_after_request_witness:
  "http_code (reply (receive_audio (script_request Map.empty (Some 4)) ''20240101_120000''
        (Write_raised ''[Errno 28] No space left on device'' (Some 3)) Map.empty
        [Bytes ''abcd''])) = 500
   \<and> files (receive_audio (script_request Map.empty (Some 4)) ''20240101_120000''
        (Write_raised ''[Errno 28] No space left on device'' (Some 3)) Map.empty
        [Bytes ''abcd'']) = [recording_name ''20240101_120000'' \<mapsto> ''abc'']"
proof -
  let ?req = "script_request Map.empty (Some 4)"
  let ?wr = "Write_raised ''[Errno 28] No space left on device'' (Some 3)"
  have h1: "http_code (reply (receive_audio ?req ''20240101_120000'' ?wr Map.empty
      [Bytes ''abcd''])) = 500"
    by (simp add: eval_defs)
  have h2: "fst (read_audio ?req [Bytes ''abcd'']) = Inr ''abcd''"
    by (simp add: eval_defs)
  show ?thesis
    using h1 h2
      storage_after_request [of ?req "''20240101_120000''" ?wr Map.empty "[Bytes ''abcd'']"]
    by auto
qed

subsection \<open>The content type\<close>

lemma header_get_other:
  "k \<noteq> k' \<Longrightarrow> header_get (hs(k' := v)) k d = header_get hs k d"
  by (simp add: header_get_def)

lemma audio_headers_content_type:
  "sample_rate_of (req\<lparr>headers := (headers req)(''content-type'' := ct)\<rparr>) = sample_rate_of req"
  "bits_per_sample_of (req\<lparr>headers := (headers req)(''content-type'' := ct)\<rparr>)
     = bits_per_sample_of req"
  "channels_of (req\<lparr>headers := (headers req)(''content-type'' := ct)\<rparr>) = channels_of req"
  by (simp_all add: sample_rate_of_def bits_per_sample_of_def channels_of_def header_get_other)

lemma primary_read_content_type:
  "primary_read (req\<lparr>headers := (headers req)(''content-type'' := ct)\<rparr>) s = primary_read req s"
  by (simp add: primary_read_def split: option.splits)

lemma fallback_read_content_type:
  "fallback_read (req\<lparr>headers := (headers req)(''content-type'' := ct)\<rparr>) d s
     = fallback_read req d s"
  by (simp add: fallback_read_def split: option.splits)

lemma read_audio_content_type:
  "read_audio (req\<lparr>headers := (headers req)(''content-type'' := ct)\<rparr>) s = read_audio req s"
  unfolding read_audio_def primary_read_content_type fallback_read_content_type ..

lemma store_and_reply_content_type:
  "store_and_reply (req\<lparr>headers := (headers req)(''content-type'' := ct)\<rparr>) ts wr fs d
     = store_and_reply req ts wr fs d"
  unfolding store_and_reply_def audio_headers_content_type ..

text \<open>
  Claim C7.  The declared content type has no effect on the outcome of a request: whatever
  the \<open>Content-Type\<close> header is set to (or if it is absent), the response, the storage and
  the stream are the same, and so is the log but for the warning that lines 61 and 62 write
  when the lower-cased value does not contain \<open>audio/pcm\<close>.
\<close>

theorem content_type_is_not_checked:
  fixes req :: "'s request" and ct :: "string option" and wr :: write_result
  defines "req' \<equiv> req\<lparr>headers := (headers req)(''content-type'' := ct)\<rparr>"
  shows "reply (receive_audio req' ts wr fs s) = reply (receive_audio req ts wr fs s)
       \<and> files (receive_audio req' ts wr fs s) = files (receive_audio req ts wr fs s)
       \<and> stream_state (receive_audio req' ts wr fs s) = stream_state (receive_audio req ts wr fs s)
       \<and> (\<exists>rest. logged (receive_audio req' ts wr fs s) = content_type_warning req' @ rest
                 \<and> logged (receive_audio req ts wr fs s) = content_type_warning req @ rest)"
  unfolding req'_def receive_audio_def read_audio_content_type store_and_reply_content_type
  by (simp split: prod.splits sum.splits)

theorem content_type_is_not_checked_witness:
  "reply (receive_audio (script_request [''content-type'' \<mapsto> ''text/plain''] None)
      ''20240101_120000'' Written Map.empty [Bytes ''ab''])
   = reply (receive_audio (script_request Map.empty None) ''20240101_120000'' Written Map.empty
      [Bytes ''ab''])
   \<and> http_code (reply (receive_audio (script_request [''content-type'' \<mapsto> ''text/plain''] None)
      ''20240101_120000'' Written Map.empty [Bytes ''ab''])) = 200
   \<and> content_type_warning (script_request [''content-type'' \<mapsto> ''text/plain''] None)
      = [(WARNING, ''Unexpected Content-Type: text/plain'')]"
proof -
  have r: "(script_request Map.empty None)
      \<lparr>headers := (headers (script_request Map.empty None))(''content-type'' := Some ''text/plain'')\<rparr>
      = script_request [''content-type'' \<mapsto> ''text/plain''] None"
    by (simp add: script_request_def)
  have c: "http_code (reply (receive_audio (script_request Map.empty None) ''20240101_120000''
      Written Map.empty [Bytes ''ab''])) = 200"
    by (simp add: eval_defs)
  have w: "content_type_warning (script_request [''content-type'' \<mapsto> ''text/plain''] None)
      = [(WARNING, ''Unexpected Content-Type: text/plain'')]"
    by (simp add: eval_defs)
  show ?thesis
    using c w content_type_is_not_checked [of "script_request Map.empty None"
        "Some ''text/plain''" "''20240101_120000''" Written Map.empty "[Bytes ''ab'']"]
    unfolding r by simp
qed

subsection \<open>The listing\<close>









lemma set_sorted_reverse: "set (sorted_reverse f xs) = set xs"
  by (simp add: sorted_reverse_def)

lemma stat_entry_Some:
  "item_stat i = Some (sz, mtime) \<Longrightarrow>
     stat_entry i = Some \<lparr>file_name = item_name i, st_size = sz, st_mtime = mtime\<rparr>"
  by (simp add: stat_entry_def)







text \<open>
  Claim C10.  The listing holds only files whose name ends in \<open>.pcm\<close>: every returned file
  name has that ending, the count is the number of such directory entries, and a file with
  another name, wherever it stands in the directory, changes neither the recordings nor
  the count.
\<close>

theorem only_pcm_files_listed:
  "(\<forall>r \<in> set (recordings (list_recordings isoformat dir)). suffix ''.pcm'' (rec_filename r))
   \<and> count (list_recordings isoformat dir)
       = length (filter (\<lambda>e. suffix ''.pcm'' (file_name e)) dir)
   \<and> (\<not> suffix ''.pcm'' (file_name e) \<longrightarrow>
         list_recordings isoformat (xs @ e # ys) = list_recordings isoformat (xs @ ys))"
proof -
  have "\<forall>r \<in> set (recordings (list_recordings isoformat dir)). suffix ''.pcm'' (rec_filename r)"
    by (auto simp: list_recordings_def set_sorted_reverse glob_pcm_def recording_of_def)
  moreover have "count (list_recordings isoformat dir)
       = length (filter (\<lambda>e. suffix ''.pcm'' (file_name e)) dir)"
    by (simp add: list_recordings_def sorted_reverse_def glob_pcm_def)
  moreover have "\<not> suffix ''.pcm'' (file_name e) \<longrightarrow> glob_pcm (xs @ e # ys) = glob_pcm (xs @ ys)"
    by (simp add: glob_pcm_def)
  then have "\<not> suffix ''.pcm'' (file_name e) \<longrightarrow>
         list_recordings isoformat (xs @ e # ys) = list_recordings isoformat (xs @ ys)"
    by (simp add: list_recordings_def)
  ultimately show ?thesis
    by blast
qed

theorem only_pcm_files_listed_witness:
  "list_recordings (\<lambda>t. ''1970-01-01T00:00:00'')
      ([\<lparr>file_name = ''recording_20240101_120000.pcm'', st_size = 2, st_mtime = 5\<rparr>]
        @ \<lparr>file_name = ''notes.txt'', st_size = 9, st_mtime = 7\<rparr> # [])
   = list_recordings (\<lambda>t. ''1970-01-01T00:00:00'')
      ([\<lparr>file_name = ''recording_20240101_120000.pcm'', st_size = 2, st_mtime = 5\<rparr>] @ [])
   \<and> count (list_recordings (\<lambda>t. ''1970-01-01T00:00:00'')
      ([\<lparr>file_name = ''recording_20240101_120000.pcm'', st_size = 2, st_mtime = 5\<rparr>]
        @ \<lparr>file_name = ''notes.txt'', st_size = 9, st_mtime = 7\<rparr> # [])) = 1"
proof -
  have h: "\<not> suffix ''.pcm'' (file_name \<lparr>file_name = ''notes.txt'', st_size = 9, st_mtime = 7\<rparr>)"
    by (simp add: suffix_to_prefix)
  have c: "length (filter (\<lambda>e. suffix ''.pcm'' (file_name e))
      ([\<lparr>file_name = ''recording_20240101_120000.pcm'', st_size = 2, st_mtime = 5\<rparr>]
        @ \<lparr>file_name = ''notes.txt'', st_size = 9, st_mtime = 7\<rparr> # [])) = 1"
    by (simp add: suffix_to_prefix)
  note t = only_pcm_files_listed [of "\<lambda>t. ''1970-01-01T00:00:00''"
        "[\<lparr>file_name = ''recording_20240101_120000.pcm'', st_size = 2, st_mtime = 5\<rparr>]
          @ \<lparr>file_name = ''notes.txt'', st_size = 9, st_mtime = 7\<rparr> # []"
        "\<lparr>file_name = ''notes.txt'', st_size = 9, st_mtime = 7\<rparr>"
        "[\<lparr>file_name = ''recording_20240101_120000.pcm'', st_size = 2, st_mtime = 5\<rparr>]" "[]"]
  have e1: "list_recordings (\<lambda>t. ''1970-01-01T00:00:00'')
      ([\<lparr>file_name = ''recording_20240101_120000.pcm'', st_size = 2, st_mtime = 5\<rparr>]
        @ \<lparr>file_name = ''notes.txt'', st_size = 9, st_mtime = 7\<rparr> # [])
   = list_recordings (\<lambda>t. ''1970-01-01T00:00:00'')
      ([\<lparr>file_name = ''recording_20240101_120000.pcm'', st_size = 2, st_mtime = 5\<rparr>] @ [])"
    using t h by blast
  have e2: "count (list_recordings (\<lambda>t. ''1970-01-01T00:00:00'')
      ([\<lparr>file_name = ''recording_20240101_120000.pcm'', st_size = 2, st_mtime = 5\<rparr>]
        @ \<lparr>file_name = ''notes.txt'', st_size = 9, st_mtime = 7\<rparr> # [])) = 1"
    using conjunct1 [OF conjunct2 [OF t]] c by (rule trans)
  show ?thesis
    using e1 e2 by (rule conjI)
qed

subsection \<open>The chunk loop\<close>

lemma read_chunks_full:
  "max_size \<le> length acc \<Longrightarrow> read_chunks rd s acc = ((None, acc), s)"
  by (simp add: read_chunks.simps)

lemma read_chunks_raised:
  "length acc < max_size \<Longrightarrow> rd chunk_size s = Raised e s' \<Longrightarrow>
     read_chunks rd s acc = ((Some e, acc), s')"
  by (simp add: read_chunks.simps)

lemma read_chunks_eof:
  "length acc < max_size \<Longrightarrow> rd chunk_size s = Data [] s' \<Longrightarrow>
     read_chunks rd s acc = ((None, acc), s')"
  by (simp add: read_chunks.simps)

lemma read_chunks_more:
  "length acc < max_size \<Longrightarrow> rd chunk_size s = Data c s' \<Longrightarrow> c \<noteq> [] \<Longrightarrow>
     read_chunks rd s acc = read_chunks rd s' (acc @ c)"
  by (simp add: read_chunks.simps)

text \<open>
  What the loop has done when it returns: it has taken the first \<open>k\<close> chunks of the
  stream, all of them non-empty, the buffer was below the ceiling before each of them, and
  it stopped because the ceiling was reached, the next read returned zero bytes, or the
  next read raised.
\<close>

lemma read_chunks_trace:
  "\<exists>k cs t. feed rd k s = (cs, t) \<and> length cs = k \<and> [] \<notin> set cs
      \<and> k \<le> max_size - length acc
      \<and> (\<forall>j<k. length (acc @ concat (take j cs)) < max_size)
      \<and> (if max_size \<le> length (acc @ concat cs)
          then read_chunks rd s acc = ((None, acc @ concat cs), t)
          else (case rd chunk_size t of
                  Data c s' \<Rightarrow> c = [] \<and> read_chunks rd s acc = ((None, acc @ concat cs), s')
                | Raised e s' \<Rightarrow> read_chunks rd s acc = ((Some e, acc @ concat cs), s')))"
proof (induction rd s acc rule: read_chunks.induct)
  case (1 rd s acc)
  let ?P = "\<lambda>k cs t. feed rd k s = (cs, t) \<and> length cs = k \<and> [] \<notin> set cs
      \<and> k \<le> max_size - length acc
      \<and> (\<forall>j<k. length (acc @ concat (take j cs)) < max_size)
      \<and> (if max_size \<le> length (acc @ concat cs)
          then read_chunks rd s acc = ((None, acc @ concat cs), t)
          else (case rd chunk_size t of
                  Data c s' \<Rightarrow> c = [] \<and> read_chunks rd s acc = ((None, acc @ concat cs), s')
                | Raised e s' \<Rightarrow> read_chunks rd s acc = ((Some e, acc @ concat cs), s')))"
  show ?case
  proof (cases "length acc < max_size")
    case False
    then have "?P 0 [] s"
      by (simp add: read_chunks_full)
    then show ?thesis
      by blast
  next
    case below: True
    show ?thesis
    proof (cases "rd chunk_size s")
      case (Raised e s')
      with below have "?P 0 [] s"
        by (simp add: read_chunks_raised)
      then show ?thesis
        by blast
    next
      case (Data c s')
      show ?thesis
      proof (cases "c = []")
        case True
        with below Data have "?P 0 [] s"
          by (simp add: read_chunks_eof)
        then show ?thesis
          by blast
      next
        case False
        from "1.IH" [OF below Data False]
        obtain k cs t where feed: "feed rd k s' = (cs, t)" and len: "length cs = k"
          and ne: "[] \<notin> set cs" and k: "k \<le> max_size - length (acc @ c)"
          and part: "\<forall>j<k. length ((acc @ c) @ concat (take j cs)) < max_size"
          and stop: "if max_size \<le> length ((acc @ c) @ concat cs)
            then read_chunks rd s' (acc @ c) = ((None, (acc @ c) @ concat cs), t)
            else (case rd chunk_size t of
                    Data c' s'' \<Rightarrow> c' = []
                      \<and> read_chunks rd s' (acc @ c) = ((None, (acc @ c) @ concat cs), s'')
                  | Raised e s'' \<Rightarrow>
                      read_chunks rd s' (acc @ c) = ((Some e, (acc @ c) @ concat cs), s''))"
          by blast
        have step: "read_chunks rd s acc = read_chunks rd s' (acc @ c)"
          using below Data False by (rule read_chunks_more)
        have f: "feed rd (Suc k) s = (c # cs, t)"
          using Data feed by simp
        have l: "length (c # cs) = Suc k" and n: "[] \<notin> set (c # cs)"
          using len ne False by auto
        have "0 < length c"
          using False by simp
        moreover have "k \<le> max_size - (length acc + length c)"
          using k by simp
        ultimately have b: "Suc k \<le> max_size - length acc"
          using below by arith
        have p: "\<forall>j<Suc k. length (acc @ concat (take j (c # cs))) < max_size"
        proof (intro allI impI)
          fix j
          assume "j < Suc k"
          then show "length (acc @ concat (take j (c # cs))) < max_size"
            using below part by (cases j) auto
        qed
        have eq: "(acc @ c) @ concat cs = acc @ concat (c # cs)"
          by simp
        have st: "if max_size \<le> length (acc @ concat (c # cs))
            then read_chunks rd s acc = ((None, acc @ concat (c # cs)), t)
            else (case rd chunk_size t of
                    Data c' s'' \<Rightarrow> c' = []
                      \<and> read_chunks rd s acc = ((None, acc @ concat (c # cs)), s'')
                  | Raised e s'' \<Rightarrow>
                      read_chunks rd s acc = ((Some e, acc @ concat (c # cs)), s''))"
          using stop unfolding step eq .
        have "?P (Suc k) (c # cs) t"
          using f l n b p st by blast
        then show ?thesis
          by blast
      qed
    qed
  qed
qed

lemma read_chunks_bound:
  "\<forall>t c t'. rd chunk_size t = Data c t' \<longrightarrow> length c \<le> chunk_size \<Longrightarrow>
   length acc < max_size + chunk_size \<Longrightarrow>
   length (snd (fst (read_chunks rd s acc))) < max_size + chunk_size"
proof (induction rd s acc rule: read_chunks.induct)
  case (1 rd s acc)
  show ?case
  proof (cases "length acc < max_size")
    case False
    with "1.prems"(2) show ?thesis
      by (simp add: read_chunks_full)
  next
    case below: True
    show ?thesis
    proof (cases "rd chunk_size s")
      case (Raised e s')
      with below "1.prems"(2) show ?thesis
        by (simp add: read_chunks_raised)
    next
      case (Data c s')
      show ?thesis
      proof (cases "c = []")
        case True
        with below Data "1.prems"(2) show ?thesis
          by (simp add: read_chunks_eof)
      next
        case False
        have "length c \<le> chunk_size"
          using "1.prems"(1) Data by blast
        with below have "length (acc @ c) < max_size + chunk_size"
          by simp
        with "1.IH" [OF below Data False "1.prems"(1)] show ?thesis
          using below Data False by (simp add: read_chunks_more)
      qed
    qed
  qed
qed


lemma read_chunks_chunks:
  "\<exists>k cs t. feed rd k s = (cs, t) \<and> length cs = k \<and> [] \<notin> set cs
      \<and> k \<le> max_size - length acc
      \<and> (\<forall>j<k. length (acc @ concat (take j cs)) < max_size)
      \<and> snd (fst (read_chunks rd s acc)) = acc @ concat cs"
proof -
  obtain k cs t where t: "feed rd k s = (cs, t)" "length cs = k" "[] \<notin> set cs"
      "k \<le> max_size - length acc" "\<forall>j<k. length (acc @ concat (take j cs)) < max_size"
    and stop: "if max_size \<le> length (acc @ concat cs)
          then read_chunks rd s acc = ((None, acc @ concat cs), t)
          else (case rd chunk_size t of
                  Data c s' \<Rightarrow> c = [] \<and> read_chunks rd s acc = ((None, acc @ concat cs), s')
                | Raised e s' \<Rightarrow> read_chunks rd s acc = ((Some e, acc @ concat cs), s'))"
    using read_chunks_trace [of rd s acc] by blast
  have "snd (fst (read_chunks rd s acc)) = acc @ concat cs"
    using stop by (cases "rd chunk_size t") (auto split: if_splits)
  with t show ?thesis
    by blast
qed

lemma read_audio_bound:
  fixes req :: "'s request"
  assumes none: "declared (content_length req) = None"
    and prim: "\<forall>t c t'. stream req chunk_size t = Data c t' \<longrightarrow> length c \<le> chunk_size"
    and fall: "\<forall>rd t c t'. wsgi_input req = Some rd \<and> rd chunk_size t = Data c t'
                 \<longrightarrow> length c \<le> chunk_size"
    and rd: "fst (read_audio req s) = Inr d"
  shows "length d < max_size + chunk_size"
proof -
  obtain err d1 s1 where p: "read_chunks (stream req) s [] = ((err, d1), s1)"
    by (metis surj_pair)
  have "length ([] :: bytes) < max_size + chunk_size"
    by (simp add: chunk_size_def)
  with prim have "length (snd (fst (read_chunks (stream req) s []))) < max_size + chunk_size"
    by (rule read_chunks_bound)
  with p have b1: "length d1 < max_size + chunk_size"
    by simp
  show ?thesis
  proof (cases err)
    case None
    with p none rd have "d = d1"
      by (simp add: read_audio_def primary_read_def)
    with b1 show ?thesis
      by simp
  next
    case (Some e)
    show ?thesis
    proof (cases "wsgi_input req")
      case None
      with Some p none rd have "d = d1"
        by (simp add: read_audio_def primary_read_def fallback_read_def)
      with b1 show ?thesis
        by simp
    next
      case (Some rd')
      obtain err2 d2 s2 where f: "read_chunks rd' s1 d1 = ((err2, d2), s2)"
        by (metis surj_pair)
      have "\<forall>t c t'. rd' chunk_size t = Data c t' \<longrightarrow> length c \<le> chunk_size"
        using fall Some by blast
      then have "length (snd (fst (read_chunks rd' s1 d1))) < max_size + chunk_size"
        using b1 by (rule read_chunks_bound)
      with f have b2: "length d2 < max_size + chunk_size"
        by simp
      have "d = d2"
        using \<open>err = Some e\<close> Some p f none rd
        by (cases err2) (simp_all add: read_audio_def primary_read_def fallback_read_def)
      with b2 show ?thesis
        by simp
    qed
  qed
qed

text \<open>
  Claim C9.  The chunk loop is a total function: its definition above comes with a
  termination proof for every reader, since each iteration that does not leave the loop
  adds at least one byte to a buffer that is below the ceiling.  Here: the loop returns
  after at most \<open>max_size\<close> chunks, all of them non-empty, each taken while the buffer was
  below 10 MiB, and the buffer it returns is their concatenation.  When a read of 16 KiB
  never returns more than 16 KiB, the buffer is strictly smaller than 10 MiB + 16 KiB, and
  so is every body that the handler reads without a declared length, through the fallback
  too.
\<close>

theorem chunk_loop_terminates_within_bound:
  fixes rd :: "'s reader" and req :: "'s request"
  shows "(\<exists>k cs t. k \<le> max_size \<and> feed rd k s = (cs, t) \<and> length cs = k \<and> [] \<notin> set cs
            \<and> (\<forall>j<k. length (concat (take j cs)) < max_size)
            \<and> snd (fst (read_chunks rd s [])) = concat cs)
       \<and> ((\<forall>t c t'. rd chunk_size t = Data c t' \<longrightarrow> length c \<le> chunk_size) \<longrightarrow>
            length (snd (fst (read_chunks rd s []))) < max_size + chunk_size)
       \<and> (declared (content_length req) = None
            \<and> (\<forall>t c t'. stream req chunk_size t = Data c t' \<longrightarrow> length c \<le> chunk_size)
            \<and> (\<forall>rd t c t'. wsgi_input req = Some rd \<and> rd chunk_size t = Data c t'
                  \<longrightarrow> length c \<le> chunk_size)
            \<longrightarrow> (\<forall>d. fst (read_audio req s) = Inr d \<longrightarrow> length d < max_size + chunk_size))"
proof (intro conjI)
  show "\<exists>k cs t. k \<le> max_size \<and> feed rd k s = (cs, t) \<and> length cs = k \<and> [] \<notin> set cs
            \<and> (\<forall>j<k. length (concat (take j cs)) < max_size)
            \<and> snd (fst (read_chunks rd s [])) = concat cs"
    using read_chunks_chunks [of rd s "[]"] by auto
  show "(\<forall>t c t'. rd chunk_size t = Data c t' \<longrightarrow> length c \<le> chunk_size) \<longrightarrow>
            length (snd (fst (read_chunks rd s []))) < max_size + chunk_size"
  proof
    assume c: "\<forall>t c t'. rd chunk_size t = Data c t' \<longrightarrow> length c \<le> chunk_size"
    have "length ([] :: bytes) < max_size + chunk_size"
      by (simp add: chunk_size_def)
    with c show "length (snd (fst (read_chunks rd s []))) < max_size + chunk_size"
      by (rule read_chunks_bound)
  qed
  show "declared (content_length req) = None
            \<and> (\<forall>t c t'. stream req chunk_size t = Data c t' \<longrightarrow> length c \<le> chunk_size)
            \<and> (\<forall>rd t c t'. wsgi_input req = Some rd \<and> rd chunk_size t = Data c t'
                  \<longrightarrow> length c \<le> chunk_size)
            \<longrightarrow> (\<forall>d. fst (read_audio req s) = Inr d \<longrightarrow> length d < max_size + chunk_size)"
    using read_audio_bound [of req s] by blast
qed

lemma script_read_chunk: "script_read n t = Data c t' \<Longrightarrow> length c \<le> n"
  by (cases "(n, t)" rule: script_read.cases) (auto split: if_splits)

theorem chunk_loop_terminates_within_bound_witness:
  "snd (fst (read_chunks script_read [Bytes ''ab'', Bytes ''c''] [])) = ''abc''
   \<and> length (snd (fst (read_chunks script_read [Bytes ''ab'', Bytes ''c''] [])))
       < max_size + chunk_size"
proof -
  have c: "\<forall>t c t'. script_read chunk_size t = Data c t' \<longrightarrow> length c \<le> chunk_size"
    using script_read_chunk by blast
  have e: "snd (fst (read_chunks script_read [Bytes ''ab'', Bytes ''c''] [])) = ''abc''"
    by (simp add: read_chunks.simps max_size_def chunk_size_def)
  show ?thesis
    using c e chunk_loop_terminates_within_bound
      [of script_read "[Bytes ''ab'', Bytes ''c'']" "script_request Map.empty None"]
    by blast
qed

subsection \<open>The fallback\<close>

lemma contains_self: "contains needle needle"
  by (cases needle) simp_all

lemma contains_append: "contains needle (pre @ needle)"
  by (induction pre) (simp_all add: contains_self)

text \<open>
  The converse of the trace of the loop: while the stream delivers non-empty chunks and
  the buffer is below the ceiling before each of them, the loop takes them.
\<close>

lemma read_chunks_feed:
  "feed rd k s = (cs, t) \<Longrightarrow> length cs = k \<Longrightarrow> [] \<notin> set cs \<Longrightarrow>
   \<forall>j<k. length (acc @ concat (take j cs)) < max_size \<Longrightarrow>
   read_chunks rd s acc = read_chunks rd t (acc @ concat cs)"
proof (induction k arbitrary: s cs acc)
  case 0
  then show ?case
    by simp
next
  case (Suc k)
  show ?case
  proof (cases "rd chunk_size s")
    case (Raised e s')
    with Suc.prems(1) have "cs = []"
      by simp
    with Suc.prems(2) show ?thesis
      by simp
  next
    case (Data c s')
    obtain cs' t' where f: "feed rd k s' = (cs', t')"
      by (metis surj_pair)
    with Data Suc.prems(1) have cs: "cs = c # cs'" and t: "t' = t"
      by simp_all
    from f t have f': "feed rd k s' = (cs', t)"
      by simp
    have len: "length cs' = k" and ne: "[] \<notin> set cs'" and c: "c \<noteq> []"
      using Suc.prems(2,3) unfolding cs by auto
    have below: "length acc < max_size"
      using Suc.prems(4) [rule_format, of 0] by simp
    have part: "\<forall>j<k. length ((acc @ c) @ concat (take j cs')) < max_size"
    proof (intro allI impI)
      fix j
      assume "j < k"
      then have "Suc j < Suc k"
        by simp
      from Suc.prems(4) [rule_format, OF this]
      show "length ((acc @ c) @ concat (take j cs')) < max_size"
        unfolding cs by simp
    qed
    have "read_chunks rd s acc = read_chunks rd s' (acc @ c)"
      using below Data c by (rule read_chunks_more)
    also have "\<dots> = read_chunks rd t ((acc @ c) @ concat cs')"
      by (rule Suc.IH [OF f' len ne part])
    finally show ?thesis
      unfolding cs by simp
  qed
qed

lemma primary_read_raised_declared:
  assumes "declared (content_length req) = Some n" and "stream req n s = Raised e1 s1"
  shows "primary_read req s = ((Some e1, []), s1, [])"
  using assms by (simp add: primary_read_def)

lemma primary_read_raised_chunks:
  assumes "declared (content_length req) = None"
    and "feed (stream req) k s = (cs, t)" and "length cs = k" and "[] \<notin> set cs"
    and "length (concat cs) < max_size" and "stream req chunk_size t = Raised e1 s1"
  shows "primary_read req s = ((Some e1, concat cs), s1, [])"
proof -
  have "\<forall>j<k. length ([] @ concat (take j cs)) < max_size"
  proof (intro allI impI)
    fix j
    have "length (concat (take j cs)) \<le> length (concat (take j cs @ drop j cs))"
      unfolding concat_append by simp
    with assms(5) show "length ([] @ concat (take j cs)) < max_size"
      by simp
  qed
  with assms(2-4) have "read_chunks (stream req) s [] = read_chunks (stream req) t ([] @ concat cs)"
    by (rule read_chunks_feed)
  also have "\<dots> = ((Some e1, concat cs), s1)"
    using assms(5,6) by (simp add: read_chunks_raised)
  finally show ?thesis
    using assms(1) by (simp add: primary_read_def)
qed

lemma receive_audio_fallback_failed:
  assumes "primary_read req s = ((Some e1, partial), s1, lg)"
    and "fallback_read req partial s1 = ((Some e2, d), s2)"
  shows "http_code (reply (receive_audio req ts wr fs s)) = 400
       \<and> status (reply (receive_audio req ts wr fs s)) = ''error''
       \<and> message (reply (receive_audio req ts wr fs s)) = ''Failed to read audio stream: '' @ e1
       \<and> contains e1 (message (reply (receive_audio req ts wr fs s)))
       \<and> files (receive_audio req ts wr fs s) = fs
       \<and> stream_state (receive_audio req ts wr fs s) = s2"
proof -
  from assms have r: "read_audio req s
      = (Inl e1, s2, lg @ [(ERROR, ''Error reading audio stream: '' @ e1),
           (ERROR, ''Fallback also failed: '' @ e2)])"
    by (simp add: read_audio_def)
  have m: "message (reply (receive_audio req ts wr fs s)) = ''Failed to read audio stream: '' @ e1"
    by (simp add: receive_audio_failed [OF r] error_response_def)
  have c: "contains e1 (message (reply (receive_audio req ts wr fs s)))"
    unfolding m by (rule contains_append)
  have "http_code (reply (receive_audio req ts wr fs s)) = 400"
    and "status (reply (receive_audio req ts wr fs s)) = ''error''"
    and "files (receive_audio req ts wr fs s) = fs"
    and "stream_state (receive_audio req ts wr fs s) = s2"
    by (simp_all add: receive_audio_failed [OF r] error_response_def)
  with m c show ?thesis
    by (simp del: contains.simps)
qed

lemma receive_audio_fallback_read:
  assumes "primary_read req s = ((Some e1, partial), s1, lg)"
    and "fallback_read req partial s1 = ((None, d), s2)"
  shows "stream_state (receive_audio req ts wr fs s) = s2
       \<and> (d = [] \<longrightarrow> http_code (reply (receive_audio req ts wr fs s)) = 400
            \<and> message (reply (receive_audio req ts wr fs s)) = ''No audio data received''
            \<and> files (receive_audio req ts wr fs s) = fs)
       \<and> (d \<noteq> [] \<longrightarrow> http_code (reply (receive_audio req ts wr fs s)) \<noteq> 400
            \<and> (wr = Written \<longrightarrow>
                 files (receive_audio req ts wr fs s) = fs(recording_name ts \<mapsto> d)))"
proof -
  from assms have r: "read_audio req s
      = (Inr d, s2, lg @ [(ERROR, ''Error reading audio stream: '' @ e1)])"
    by (simp add: read_audio_def)
  have 1: "stream_state (receive_audio req ts wr fs s) = s2"
    by (simp add: receive_audio_read [OF r])
  have 2: "d = [] \<longrightarrow> http_code (reply (receive_audio req ts wr fs s)) = 400
            \<and> message (reply (receive_audio req ts wr fs s)) = ''No audio data received''
            \<and> files (receive_audio req ts wr fs s) = fs"
    by (simp add: receive_audio_read [OF r] store_and_reply_empty error_response_def)
  have 3: "d \<noteq> [] \<longrightarrow> http_code (reply (receive_audio req ts wr fs s)) \<noteq> 400
            \<and> (wr = Written \<longrightarrow>
                 files (receive_audio req ts wr fs s) = fs(recording_name ts \<mapsto> d))"
  proof
    assume d: "d \<noteq> []"
    show "http_code (reply (receive_audio req ts wr fs s)) \<noteq> 400
            \<and> (wr = Written \<longrightarrow>
                 files (receive_audio req ts wr fs s) = fs(recording_name ts \<mapsto> d))"
    proof (cases wr)
      case (Write_raised e written)
      with d show ?thesis
        by (simp add: receive_audio_read [OF r] store_and_reply_write_raised error_response_def)
    next
      case Written
      show ?thesis
      proof (cases "rounded_duration (sample_rate_of req) (bits_per_sample_of req)
          (channels_of req) (length d)")
        case (Inl e)
        with d Written show ?thesis
          by (simp add: receive_audio_read [OF r] store_and_reply_error error_response_def)
      next
        case (Inr q)
        with d Written show ?thesis
          by (simp add: receive_audio_read [OF r] store_and_reply_success)
      qed
    qed
  qed
  from 1 2 3 show ?thesis
    by blast
qed

text \<open>
  Claim C6.  Let the request have a raw WSGI input, and let the primary read raise: with a
  declared length, the one read of the request stream raises; without one, the request
  stream delivers some non-empty chunks, the buffer staying below the ceiling, and the
  next read raises.  Then the fallback procedure runs once on the raw WSGI input, from
  the state the failed read left, and nothing is read after it.  With a declared length
  it is one read of that many bytes; without one it is the chunk loop, which goes on
  filling the buffer of the primary read.  If the fallback raises too, the response is a
  client error (status \<open>error\<close>, HTTP 400) whose message is
  \<open>Failed to read audio stream:\<close> followed by the text of the exception of the primary
  read, no file is written, and the stream is left where the failed read of the fallback
  left it.  If the fallback returns, the request goes on with the bytes it returned: an
  empty body is refused, and a non-empty one is stored when the write succeeds.
\<close>

theorem fallback_once_then_client_error:
  fixes req :: "'s request" and ts :: string and wr :: write_result
    and fs :: "string \<rightharpoonup> bytes" and s :: 's and rd :: "'s reader"
  defines "out \<equiv> receive_audio req ts wr fs s"
  defines "failed \<equiv> \<lambda>e1 s2.
      http_code (reply out) = 400 \<and> status (reply out) = ''error''
      \<and> message (reply out) = ''Failed to read audio stream: '' @ e1
      \<and> contains e1 (message (reply out))
      \<and> files out = fs \<and> stream_state out = s2"
  defines "resumed \<equiv> \<lambda>d s2.
      stream_state out = s2
      \<and> (d = [] \<longrightarrow> http_code (reply out) = 400
            \<and> message (reply out) = ''No audio data received'' \<and> files out = fs)
      \<and> (d \<noteq> [] \<longrightarrow> http_code (reply out) \<noteq> 400
            \<and> (wr = Written \<longrightarrow> files out = fs(recording_name ts \<mapsto> d)))"
  assumes "wsgi_input req = Some rd"
  shows "(\<forall>n e1 s1. declared (content_length req) = Some n \<and> stream req n s = Raised e1 s1 \<longrightarrow>
            (case rd n s1 of
               Raised e2 s2 \<Rightarrow> failed e1 s2
             | Data d s2 \<Rightarrow> resumed d s2))
       \<and> (\<forall>k cs t e1 s1. declared (content_length req) = None
              \<and> feed (stream req) k s = (cs, t) \<and> length cs = k \<and> [] \<notin> set cs
              \<and> length (concat cs) < max_size \<and> stream req chunk_size t = Raised e1 s1 \<longrightarrow>
            (\<exists>k' cs' t'. feed rd k' s1 = (cs', t') \<and> length cs' = k' \<and> [] \<notin> set cs'
               \<and> (\<forall>j<k'. length (concat cs @ concat (take j cs')) < max_size)
               \<and> (if max_size \<le> length (concat cs @ concat cs')
                   then resumed (concat cs @ concat cs') t'
                   else (case rd chunk_size t' of
                           Data c s2 \<Rightarrow> c = [] \<and> resumed (concat cs @ concat cs') s2
                         | Raised e2 s2 \<Rightarrow> failed e1 s2))))"
proof -
  have declared_length: "\<forall>n e1 s1. declared (content_length req) = Some n
      \<and> stream req n s = Raised e1 s1 \<longrightarrow>
        (case rd n s1 of Raised e2 s2 \<Rightarrow> failed e1 s2 | Data d s2 \<Rightarrow> resumed d s2)"
  proof (intro allI impI)
    fix n e1 s1
    assume a: "declared (content_length req) = Some n \<and> stream req n s = Raised e1 s1"
    then have p: "primary_read req s = ((Some e1, []), s1, [])"
      by (simp add: primary_read_raised_declared)
    show "case rd n s1 of Raised e2 s2 \<Rightarrow> failed e1 s2 | Data d s2 \<Rightarrow> resumed d s2"
    proof (cases "rd n s1")
      case (Raised e2 s2)
      with a assms(4) have "fallback_read req [] s1 = ((Some e2, []), s2)"
        by (simp add: fallback_read_def)
      then have "failed e1 s2"
        unfolding failed_def out_def by (rule receive_audio_fallback_failed [OF p])
      with Raised show ?thesis
        by simp
    next
      case (Data d s2)
      with a assms(4) have "fallback_read req [] s1 = ((None, d), s2)"
        by (simp add: fallback_read_def)
      then have "resumed d s2"
        unfolding resumed_def out_def by (rule receive_audio_fallback_read [OF p])
      with Data show ?thesis
        by simp
    qed
  qed
  have no_length: "\<forall>k cs t e1 s1. declared (content_length req) = None
      \<and> feed (stream req) k s = (cs, t) \<and> length cs = k \<and> [] \<notin> set cs
      \<and> length (concat cs) < max_size \<and> stream req chunk_size t = Raised e1 s1 \<longrightarrow>
        (\<exists>k' cs' t'. feed rd k' s1 = (cs', t') \<and> length cs' = k' \<and> [] \<notin> set cs'
           \<and> (\<forall>j<k'. length (concat cs @ concat (take j cs')) < max_size)
           \<and> (if max_size \<le> length (concat cs @ concat cs')
               then resumed (concat cs @ concat cs') t'
               else (case rd chunk_size t' of
                       Data c s2 \<Rightarrow> c = [] \<and> resumed (concat cs @ concat cs') s2
                     | Raised e2 s2 \<Rightarrow> failed e1 s2)))"
  proof (intro allI impI)
    fix k cs t e1 s1
    assume a: "declared (content_length req) = None
      \<and> feed (stream req) k s = (cs, t) \<and> length cs = k \<and> [] \<notin> set cs
      \<and> length (concat cs) < max_size \<and> stream req chunk_size t = Raised e1 s1"
    then have "declared (content_length req) = None"
      and "feed (stream req) k s = (cs, t)" and "length cs = k" and "[] \<notin> set cs"
      and "length (concat cs) < max_size" and "stream req chunk_size t = Raised e1 s1"
      by simp_all
    then have p: "primary_read req s = ((Some e1, concat cs), s1, [])"
      by (rule primary_read_raised_chunks)
    have fb: "fallback_read req (concat cs) s1 = read_chunks rd s1 (concat cs)"
      using a assms(4) by (simp add: fallback_read_def)
    from read_chunks_trace [of rd s1 "concat cs"]
    obtain k' cs' t' where f: "feed rd k' s1 = (cs', t')" and len: "length cs' = k'"
      and ne: "[] \<notin> set cs'"
      and part: "\<forall>j<k'. length (concat cs @ concat (take j cs')) < max_size"
      and stop: "if max_size \<le> length (concat cs @ concat cs')
          then read_chunks rd s1 (concat cs) = ((None, concat cs @ concat cs'), t')
          else (case rd chunk_size t' of
                  Data c s' \<Rightarrow> c = []
                    \<and> read_chunks rd s1 (concat cs) = ((None, concat cs @ concat cs'), s')
                | Raised e s' \<Rightarrow>
                    read_chunks rd s1 (concat cs) = ((Some e, concat cs @ concat cs'), s'))"
      by blast
    have fin: "if max_size \<le> length (concat cs @ concat cs')
        then resumed (concat cs @ concat cs') t'
        else (case rd chunk_size t' of
                Data c s2 \<Rightarrow> c = [] \<and> resumed (concat cs @ concat cs') s2
              | Raised e2 s2 \<Rightarrow> failed e1 s2)"
    proof (cases "max_size \<le> length (concat cs @ concat cs')")
      case True
      with stop fb have "fallback_read req (concat cs) s1 = ((None, concat cs @ concat cs'), t')"
        by simp
      then have "resumed (concat cs @ concat cs') t'"
        unfolding resumed_def out_def by (rule receive_audio_fallback_read [OF p])
      with True show ?thesis
        by simp
    next
      case False
      show ?thesis
      proof (cases "rd chunk_size t'")
        case (Data c s2)
        with stop False fb have c: "c = []"
          and "fallback_read req (concat cs) s1 = ((None, concat cs @ concat cs'), s2)"
          by simp_all
        from this(2) have "resumed (concat cs @ concat cs') s2"
          unfolding resumed_def out_def by (rule receive_audio_fallback_read [OF p])
        with c False Data show ?thesis
          by simp
      next
        case (Raised e2 s2)
        with stop False fb
        have "fallback_read req (concat cs) s1 = ((Some e2, concat cs @ concat cs'), s2)"
          by simp
        then have "failed e1 s2"
          unfolding failed_def out_def by (rule receive_audio_fallback_failed [OF p])
        with False Raised show ?thesis
          by simp
      qed
    qed
    from f len ne part fin
    show "\<exists>k' cs' t'. feed rd k' s1 = (cs', t') \<and> length cs' = k' \<and> [] \<notin> set cs'
           \<and> (\<forall>j<k'. length (concat cs @ concat (take j cs')) < max_size)
           \<and> (if max_size \<le> length (concat cs @ concat cs')
               then resumed (concat cs @ concat cs') t'
               else (case rd chunk_size t' of
                       Data c s2 \<Rightarrow> c = [] \<and> resumed (concat cs @ concat cs') s2
                     | Raised e2 s2 \<Rightarrow> failed e1 s2))"
      by blast
  qed
  from declared_length no_length show ?thesis
    by (rule conjI)
qed

theorem fallback_once_then_client_error_witness:
  "wsgi_input (script_request Map.empty (Some 4)) = Some script_read
   \<and> declared (content_length (script_request Map.empty (Some 4))) = Some 4
   \<and> stream (script_request Map.empty (Some 4)) 4 [Fail ''boom'', Fail ''bang'', Bytes ''ab'']
       = Raised ''boom'' [Fail ''bang'', Bytes ''ab'']
   \<and> script_read 4 [Fail ''bang'', Bytes ''ab''] = Raised ''bang'' [Bytes ''ab'']
   \<and> http_code (reply (receive_audio (script_request Map.empty (Some 4)) ''20240101_120000''
        Written Map.empty [Fail ''boom'', Fail ''bang'', Bytes ''ab''])) = 400
   \<and> message (reply (receive_audio (script_request Map.empty (Some 4)) ''20240101_120000''
        Written Map.empty [Fail ''boom'', Fail ''bang'', Bytes ''ab'']))
       = ''Failed to read audio stream: boom''
   \<and> stream_state (receive_audio (script_request Map.empty (Some 4)) ''20240101_120000''
        Written Map.empty [Fail ''boom'', Fail ''bang'', Bytes ''ab'']) = [Bytes ''ab'']
   \<and> feed (stream (script_request Map.empty None)) 1
        [Bytes ''ab'', Fail ''boom'', Fail ''bang'', Bytes ''cd'']
       = ([''ab''], [Fail ''boom'', Fail ''bang'', Bytes ''cd''])
   \<and> message (reply (receive_audio (script_request Map.empty None) ''20240101_120000''
        Written Map.empty [Bytes ''ab'', Fail ''boom'', Fail ''bang'', Bytes ''cd'']))
       = ''Failed to read audio stream: boom''
   \<and> files (receive_audio (script_request Map.empty None) ''20240101_120000''
        Written Map.empty [Bytes ''ab'', Fail ''boom'', Fail ''bang'', Bytes ''cd''])
       = Map.empty
   \<and> stream_state (receive_audio (script_request Map.empty None) ''20240101_120000''
        Written Map.empty [Bytes ''ab'', Fail ''boom'', Fail ''bang'', Bytes ''cd''])
       = [Bytes ''cd'']"
proof -
  let ?r1 = "script_request Map.empty (Some 4)"
  let ?r2 = "script_request Map.empty None"
  let ?ts = "''20240101_120000''"
  let ?s1 = "[Fail ''boom'', Fail ''bang'', Bytes ''ab'']"
  let ?s2 = "[Bytes ''ab'', Fail ''boom'', Fail ''bang'', Bytes ''cd'']"
  have w1: "wsgi_input ?r1 = Some script_read" and w2: "wsgi_input ?r2 = Some script_read"
    by (simp_all add: script_request_def)
  have d1: "declared (content_length ?r1) = Some 4"
    by (simp add: script_request_def declared_def)
  have p1: "stream ?r1 4 ?s1 = Raised ''boom'' [Fail ''bang'', Bytes ''ab'']"
    by (simp add: script_request_def)
  have f1: "script_read 4 [Fail ''bang'', Bytes ''ab''] = Raised ''bang'' [Bytes ''ab'']"
    by simp
  have m: "''Failed to read audio stream: '' @ ''boom'' = ''Failed to read audio stream: boom''"
    by simp
  from fallback_once_then_client_error [OF w1, of ?s1 ?ts Written Map.empty] d1 p1
  have "case script_read 4 [Fail ''bang'', Bytes ''ab''] of
      Raised e2 s2 \<Rightarrow>
        http_code (reply (receive_audio ?r1 ?ts Written Map.empty ?s1)) = 400
        \<and> status (reply (receive_audio ?r1 ?ts Written Map.empty ?s1)) = ''error''
        \<and> message (reply (receive_audio ?r1 ?ts Written Map.empty ?s1))
            = ''Failed to read audio stream: '' @ ''boom''
        \<and> contains ''boom'' (message (reply (receive_audio ?r1 ?ts Written Map.empty ?s1)))
        \<and> files (receive_audio ?r1 ?ts Written Map.empty ?s1) = Map.empty
        \<and> stream_state (receive_audio ?r1 ?ts Written Map.empty ?s1) = s2
    | Data d s2 \<Rightarrow>
        stream_state (receive_audio ?r1 ?ts Written Map.empty ?s1) = s2
        \<and> (d = [] \<longrightarrow> http_code (reply (receive_audio ?r1 ?ts Written Map.empty ?s1)) = 400
              \<and> message (reply (receive_audio ?r1 ?ts Written Map.empty ?s1))
                  = ''No audio data received''
              \<and> files (receive_audio ?r1 ?ts Written Map.empty ?s1) = Map.empty)
        \<and> (d \<noteq> [] \<longrightarrow> http_code (reply (receive_audio ?r1 ?ts Written Map.empty ?s1)) \<noteq> 400
              \<and> (Written = Written \<longrightarrow> files (receive_audio ?r1 ?ts Written Map.empty ?s1)
                    = [recording_name ?ts \<mapsto> d]))"
    by blast
  then have c1: "http_code (reply (receive_audio ?r1 ?ts Written Map.empty ?s1)) = 400
      \<and> message (reply (receive_audio ?r1 ?ts Written Map.empty ?s1))
          = ''Failed to read audio stream: boom''
      \<and> stream_state (receive_audio ?r1 ?ts Written Map.empty ?s1) = [Bytes ''ab'']"
    unfolding f1 read_result.case m by blast
  have d2: "declared (content_length ?r2) = None"
    by (simp add: script_request_def declared_def)
  have p2: "feed (stream ?r2) 1 ?s2 = ([''ab''], [Fail ''boom'', Fail ''bang'', Bytes ''cd''])"
    by (simp add: script_request_def chunk_size_def)
  have q2: "length [''ab''] = (1 :: nat) \<and> [] \<notin> set [''ab'']
      \<and> length (concat [''ab'']) < max_size
      \<and> stream ?r2 chunk_size [Fail ''boom'', Fail ''bang'', Bytes ''cd'']
          = Raised ''boom'' [Fail ''bang'', Bytes ''cd'']"
    by (simp add: script_request_def max_size_def)
  from fallback_once_then_client_error [OF w2, of ?s2 ?ts Written Map.empty] d2 p2 q2
  obtain k' cs' t' where k': "feed script_read k' [Fail ''bang'', Bytes ''cd''] = (cs', t')"
      "length cs' = k'"
    and stop: "if max_size \<le> length (concat [''ab''] @ concat cs')
        then stream_state (receive_audio ?r2 ?ts Written Map.empty ?s2) = t'
          \<and> (concat [''ab''] @ concat cs' = [] \<longrightarrow>
                http_code (reply (receive_audio ?r2 ?ts Written Map.empty ?s2)) = 400
                \<and> message (reply (receive_audio ?r2 ?ts Written Map.empty ?s2))
                    = ''No audio data received''
                \<and> files (receive_audio ?r2 ?ts Written Map.empty ?s2) = Map.empty)
          \<and> (concat [''ab''] @ concat cs' \<noteq> [] \<longrightarrow>
                http_code (reply (receive_audio ?r2 ?ts Written Map.empty ?s2)) \<noteq> 400
                \<and> (Written = Written \<longrightarrow> files (receive_audio ?r2 ?ts Written Map.empty ?s2)
                      = [recording_name ?ts \<mapsto> concat [''ab''] @ concat cs']))
        else (case script_read chunk_size t' of
                Data c s2 \<Rightarrow> c = []
                  \<and> stream_state (receive_audio ?r2 ?ts Written Map.empty ?s2) = s2
                  \<and> (concat [''ab''] @ concat cs' = [] \<longrightarrow>
                        http_code (reply (receive_audio ?r2 ?ts Written Map.empty ?s2)) = 400
                        \<and> message (reply (receive_audio ?r2 ?ts Written Map.empty ?s2))
                            = ''No audio data received''
                        \<and> files (receive_audio ?r2 ?ts Written Map.empty ?s2) = Map.empty)
                  \<and> (concat [''ab''] @ concat cs' \<noteq> [] \<longrightarrow>
                        http_code (reply (receive_audio ?r2 ?ts Written Map.empty ?s2)) \<noteq> 400
                        \<and> (Written = Written \<longrightarrow>
                              files (receive_audio ?r2 ?ts Written Map.empty ?s2)
                                = [recording_name ?ts \<mapsto> concat [''ab''] @ concat cs']))
              | Raised e2 s2 \<Rightarrow>
                  http_code (reply (receive_audio ?r2 ?ts Written Map.empty ?s2)) = 400
                  \<and> status (reply (receive_audio ?r2 ?ts Written Map.empty ?s2)) = ''error''
                  \<and> message (reply (receive_audio ?r2 ?ts Written Map.empty ?s2))
                      = ''Failed to read audio stream: '' @ ''boom''
                  \<and> contains ''boom''
                      (message (reply (receive_audio ?r2 ?ts Written Map.empty ?s2)))
                  \<and> files (receive_audio ?r2 ?ts Written Map.empty ?s2) = Map.empty
                  \<and> stream_state (receive_audio ?r2 ?ts Written Map.empty ?s2) = s2)"
    by blast
  from k' have "k' = 0"
    by (cases k') auto
  with k' have cs': "cs' = []" and t': "t' = [Fail ''bang'', Bytes ''cd'']"
    by simp_all
  have below: "\<not> max_size \<le> length (concat [''ab''] @ concat ([] :: bytes list))"
    by (simp add: max_size_def)
  have f2: "script_read chunk_size [Fail ''bang'', Bytes ''cd''] = Raised ''bang'' [Bytes ''cd'']"
    by simp
  from stop have c2: "message (reply (receive_audio ?r2 ?ts Written Map.empty ?s2))
          = ''Failed to read audio stream: boom''
      \<and> files (receive_audio ?r2 ?ts Written Map.empty ?s2) = Map.empty
      \<and> stream_state (receive_audio ?r2 ?ts Written Map.empty ?s2) = [Bytes ''cd'']"
    unfolding cs' t' if_not_P [OF below] f2 read_result.case m by blast
  from w1 d1 p1 f1 c1 p2 c2 show ?thesis
    by blast
qed

subsection \<open>The body-reading policy\<close>

lemma accepted_body:
  fixes req :: "'s request"
  assumes "read_audio req s = (Inr d, s', lg)" and "d \<noteq> []"
  shows "files (receive_audio req ts Written fs s) = fs(recording_name ts \<mapsto> d)
       \<and> http_code (reply (receive_audio req ts Written fs s)) \<noteq> 400
       \<and> (isl (rounded_duration (sample_rate_of req) (bits_per_sample_of req) (channels_of req)
                 (length d))
            \<or> (http_code (reply (receive_audio req ts Written fs s)) = 200
                \<and> status (reply (receive_audio req ts Written fs s)) = ''success''
                \<and> map_option size_bytes (details (reply (receive_audio req ts Written fs s)))
                    = Some (length d)))"
proof (cases "rounded_duration (sample_rate_of req) (bits_per_sample_of req) (channels_of req)
    (length d)")
  case (Inl e)
  with assms show ?thesis
    by (simp add: receive_audio_read store_and_reply_error error_response_def)
next
  case (Inr q)
  with assms show ?thesis
    by (simp add: receive_audio_read store_and_reply_success)
qed

text \<open>
  With a declared length the handler asks the stream once for that many bytes (line 80)
  and takes what the read returns; it does not read again, and it does not compare the
  size of the body with the declared length.  A stream that ends after two bytes when four
  are declared has these two bytes stored, and the request is answered 200.
\<close>

theorem declared_length_is_read_exactly_counterexample:
  "declared (content_length (script_request Map.empty (Some 4))) = Some 4
   \<and> http_code (reply (receive_audio (script_request Map.empty (Some 4)) ''20240101_120000''
        Written Map.empty [Bytes ''ab''])) = 200
   \<and> files (receive_audio (script_request Map.empty (Some 4)) ''20240101_120000''
        Written Map.empty [Bytes ''ab'']) ''recording_20240101_120000.pcm'' = Some ''ab''
   \<and> map_option size_bytes (details (reply (receive_audio
        (script_request Map.empty (Some 4)) ''20240101_120000''
        Written Map.empty [Bytes ''ab'']))) = Some 2"
  by (simp add: eval_defs)

text \<open>
  Claim C5, as the code has it.  With a declared positive length, one read of exactly that
  many bytes is asked of the stream, and what that read returns is the body: the declared
  number of bytes if the stream delivers them to this read, fewer if it does not.  With no
  declared length, and no read raising, the body is the concatenation of the first \<open>k\<close>
  chunks that reads of 16 KiB return, all non-empty and each taken while the buffer was
  below 10 MiB, and the loop stops because the buffer has reached 10 MiB or because the
  next read returns zero bytes.  In both cases nothing is read afterwards, and, so also
  when the ceiling is hit, a non-empty body is not refused: when the write succeeds it is
  stored under the recording name, and the request is answered 200 with the size of the
  body, unless the computation of the duration raises.
\<close>

theorem body_reading_policy:
  fixes req :: "'s request" and ts :: string and fs :: "string \<rightharpoonup> bytes" and s :: 's
  defines "out \<equiv> receive_audio req ts Written fs s"
  defines "accepted \<equiv> \<lambda>d. d \<noteq> [] \<longrightarrow>
      files out = fs(recording_name ts \<mapsto> d)
      \<and> http_code (reply out) \<noteq> 400
      \<and> (isl (rounded_duration (sample_rate_of req) (bits_per_sample_of req) (channels_of req)
                (length d))
          \<or> (http_code (reply out) = 200 \<and> status (reply out) = ''success''
              \<and> map_option size_bytes (details (reply out)) = Some (length d)))"
  shows "(\<forall>n d s'. declared (content_length req) = Some n \<and> stream req n s = Data d s' \<longrightarrow>
            fst (read_audio req s) = Inr d \<and> stream_state out = s' \<and> accepted d)
       \<and> (declared (content_length req) = None
            \<and> fst (fst (read_chunks (stream req) s [])) = None \<longrightarrow>
            (\<exists>k cs t. feed (stream req) k s = (cs, t) \<and> length cs = k \<and> [] \<notin> set cs
               \<and> (\<forall>j<k. length (concat (take j cs)) < max_size)
               \<and> (if max_size \<le> length (concat cs) then stream_state out = t
                   else (\<exists>s'. stream req chunk_size t = Data [] s' \<and> stream_state out = s'))
               \<and> fst (read_audio req s) = Inr (concat cs)
               \<and> accepted (concat cs)))"
proof -
  have declared_length: "\<forall>n d s'. declared (content_length req) = Some n
      \<and> stream req n s = Data d s' \<longrightarrow>
        fst (read_audio req s) = Inr d \<and> stream_state out = s' \<and> accepted d"
  proof (intro allI impI)
    fix n d s'
    assume "declared (content_length req) = Some n \<and> stream req n s = Data d s'"
    then have r: "read_audio req s = (Inr d, s', [])"
      by (simp add: read_audio_def primary_read_def)
    have "accepted d"
      unfolding accepted_def out_def using accepted_body [OF r] by blast
    with r show "fst (read_audio req s) = Inr d \<and> stream_state out = s' \<and> accepted d"
      unfolding out_def by (simp add: receive_audio_read)
  qed
  have no_length: "declared (content_length req) = None
      \<and> fst (fst (read_chunks (stream req) s [])) = None \<longrightarrow>
        (\<exists>k cs t. feed (stream req) k s = (cs, t) \<and> length cs = k \<and> [] \<notin> set cs
           \<and> (\<forall>j<k. length (concat (take j cs)) < max_size)
           \<and> (if max_size \<le> length (concat cs) then stream_state out = t
               else (\<exists>s'. stream req chunk_size t = Data [] s' \<and> stream_state out = s'))
           \<and> fst (read_audio req s) = Inr (concat cs)
           \<and> accepted (concat cs))"
  proof
    assume a: "declared (content_length req) = None
        \<and> fst (fst (read_chunks (stream req) s [])) = None"
    have "\<exists>k cs t. feed (stream req) k s = (cs, t) \<and> length cs = k \<and> [] \<notin> set cs
        \<and> (\<forall>j<k. length (concat (take j cs)) < max_size)
        \<and> (if max_size \<le> length (concat cs)
            then read_chunks (stream req) s [] = ((None, concat cs), t)
            else (case stream req chunk_size t of
                    Data c s' \<Rightarrow> c = [] \<and> read_chunks (stream req) s [] = ((None, concat cs), s')
                  | Raised e s' \<Rightarrow> read_chunks (stream req) s [] = ((Some e, concat cs), s')))"
      using read_chunks_trace [of "stream req" s "[]"] unfolding append_Nil by blast
    then obtain k cs t where t: "feed (stream req) k s = (cs, t)" "length cs = k" "[] \<notin> set cs"
        "\<forall>j<k. length (concat (take j cs)) < max_size"
      and stop: "if max_size \<le> length (concat cs)
            then read_chunks (stream req) s [] = ((None, concat cs), t)
            else (case stream req chunk_size t of
                    Data c s' \<Rightarrow> c = [] \<and> read_chunks (stream req) s [] = ((None, concat cs), s')
                  | Raised e s' \<Rightarrow> read_chunks (stream req) s [] = ((Some e, concat cs), s'))"
      by blast
    have "\<exists>u. read_chunks (stream req) s [] = ((None, concat cs), u)
        \<and> (if max_size \<le> length (concat cs) then u = t
            else stream req chunk_size t = Data [] u)"
      using stop a by (cases "stream req chunk_size t") (auto split: if_splits)
    then obtain u where u: "read_chunks (stream req) s [] = ((None, concat cs), u)"
      and u': "if max_size \<le> length (concat cs) then u = t
            else stream req chunk_size t = Data [] u"
      by blast
    obtain lg where r: "read_audio req s = (Inr (concat cs), u, lg)"
      using a u by (simp add: read_audio_def primary_read_def)
    have st: "stream_state out = u"
      unfolding out_def using r by (simp add: receive_audio_read)
    have acc: "accepted (concat cs)"
      unfolding accepted_def out_def using accepted_body [OF r] by blast
    have fin: "if max_size \<le> length (concat cs) then stream_state out = t
          else (\<exists>s'. stream req chunk_size t = Data [] s' \<and> stream_state out = s')"
      using u' st by (auto split: if_splits)
    have rd: "fst (read_audio req s) = Inr (concat cs)"
      using r by simp
    show "\<exists>k cs t. feed (stream req) k s = (cs, t) \<and> length cs = k \<and> [] \<notin> set cs
           \<and> (\<forall>j<k. length (concat (take j cs)) < max_size)
           \<and> (if max_size \<le> length (concat cs) then stream_state out = t
               else (\<exists>s'. stream req chunk_size t = Data [] s' \<and> stream_state out = s'))
           \<and> fst (read_audio req s) = Inr (concat cs)
           \<and> accepted (concat cs)"
      using t fin rd acc by blast
  qed
  from declared_length no_length show ?thesis
    by (rule conjI)
qed

text \<open>
  A stream that never ends is cut at the ceiling: 640 chunks of 16 KiB are exactly 10 MiB.
\<close>

lemma read_chunks_endless:
  "length acc + j * chunk_size = max_size \<Longrightarrow>
     read_chunks (endless_read c) s acc = ((None, acc @ replicate (j * chunk_size) c), s)"
proof (induction j arbitrary: acc)
  case 0
  then show ?case
    by (simp add: read_chunks_full)
next
  case (Suc j)
  have pos: "0 < chunk_size"
    by (simp add: chunk_size_def)
  with Suc.prems have below: "length acc < max_size"
    by simp
  have rd: "endless_read c chunk_size s = Data (replicate chunk_size c) s"
    by (simp add: endless_read_def)
  have ne: "replicate chunk_size c \<noteq> []"
    using pos by simp
  have "length (acc @ replicate chunk_size c) + j * chunk_size = max_size"
    using Suc.prems by simp
  from Suc.IH [OF this]
  have "read_chunks (endless_read c) s (acc @ replicate chunk_size c)
      = ((None, acc @ replicate (Suc j * chunk_size) c), s)"
    by (simp add: replicate_add)
  moreover have "read_chunks (endless_read c) s acc
      = read_chunks (endless_read c) s (acc @ replicate chunk_size c)"
    using below rd ne by (rule read_chunks_more)
  ultimately show ?case
    by (simp only:)
qed

lemma read_chunks_endless_all:
  "read_chunks (endless_read c) s [] = ((None, replicate max_size c), s)"
proof -
  have "length ([] :: bytes) + 640 * chunk_size = max_size"
    by (simp add: chunk_size_def max_size_def)
  from read_chunks_endless [OF this, of c s] have
    "read_chunks (endless_read c) s [] = ((None, replicate (640 * chunk_size) c), s)"
    by simp
  moreover have "640 * chunk_size = max_size"
    by (simp add: chunk_size_def max_size_def)
  ultimately show ?thesis
    by (simp only:)
qed

theorem body_reading_policy_witness:
  "files (receive_audio (script_request Map.empty (Some 4)) ''20240101_120000'' Written Map.empty
      [Bytes ''abcd'']) = [recording_name ''20240101_120000'' \<mapsto> ''abcd'']
   \<and> fst (read_audio (endless_request CHR ''a'') ()) = Inr (replicate max_size CHR ''a'')
   \<and> http_code (reply (receive_audio (endless_request CHR ''a'') ''20240101_120000''
        Written Map.empty ())) = 200
   \<and> map_option size_bytes (details (reply (receive_audio (endless_request CHR ''a'')
        ''20240101_120000'' Written Map.empty ()))) = Some max_size"
proof -
  let ?r1 = "script_request Map.empty (Some 4)"
  let ?r2 = "endless_request CHR ''a''"
  let ?ts = "''20240101_120000''"
  have d1: "declared (content_length ?r1) = Some 4
      \<and> stream ?r1 4 [Bytes ''abcd''] = Data ''abcd'' []"
    by (simp add: script_request_def declared_def)
  have "''abcd'' \<noteq> ([] :: bytes)"
    by simp
  with d1 have f1: "files (receive_audio ?r1 ?ts Written Map.empty [Bytes ''abcd''])
      = [recording_name ?ts \<mapsto> ''abcd'']"
    using body_reading_policy [where req = ?r1 and s = "[Bytes ''abcd'']" and ts = ?ts
        and fs = Map.empty]
    by blast
  have n2: "declared (content_length ?r2) = None
      \<and> fst (fst (read_chunks (stream ?r2) () [])) = None"
    by (simp add: endless_request_def declared_def read_chunks_endless_all)
  have ra: "fst (read_audio ?r2 ()) = Inr (replicate max_size CHR ''a'')"
    by (simp add: read_audio_def primary_read_def endless_request_def declared_def
        read_chunks_endless_all)
  have ne: "replicate max_size CHR ''a'' \<noteq> []"
    by (simp add: max_size_def)
  have nd: "\<not> isl (rounded_duration (sample_rate_of ?r2) (bits_per_sample_of ?r2) (channels_of ?r2)
      (length (replicate max_size CHR ''a'')))"
    by (simp add: endless_request_def sample_rate_of_def bits_per_sample_of_def
        channels_of_def header_get_def rounded_duration_def duration_def max_size_def
        int_eval float_eval)
  obtain cs where c1: "fst (read_audio ?r2 ()) = Inr (concat cs)"
    and c2: "concat cs \<noteq> [] \<longrightarrow>
      files (receive_audio ?r2 ?ts Written Map.empty ()) = [recording_name ?ts \<mapsto> concat cs]
      \<and> http_code (reply (receive_audio ?r2 ?ts Written Map.empty ())) \<noteq> 400
      \<and> (isl (rounded_duration (sample_rate_of ?r2) (bits_per_sample_of ?r2) (channels_of ?r2)
                (length (concat cs)))
          \<or> (http_code (reply (receive_audio ?r2 ?ts Written Map.empty ())) = 200
              \<and> status (reply (receive_audio ?r2 ?ts Written Map.empty ())) = ''success''
              \<and> map_option size_bytes (details (reply (receive_audio ?r2 ?ts Written Map.empty ())))
                  = Some (length (concat cs))))"
    using n2 body_reading_policy [where req = ?r2 and s = "()" and ts = ?ts and fs = Map.empty]
    by blast
  have cs: "concat cs = replicate max_size CHR ''a''"
    using c1 ra by simp
  have "http_code (reply (receive_audio ?r2 ?ts Written Map.empty ())) = 200
      \<and> map_option size_bytes (details (reply (receive_audio ?r2 ?ts Written Map.empty ())))
          = Some (length (replicate max_size CHR ''a''))"
    using c2 ne nd unfolding cs by blast
  then show ?thesis
    using f1 ra by simp
qed

subsection \<open>Rounding\<close>

lemma round_half_even_floor:
  "\<lfloor>r\<rfloor> \<le> round_half_even r" "round_half_even r \<le> \<lfloor>r\<rfloor> + 1"
  by (simp_all add: round_half_even_def Let_def)

lemma round_half_even_cases:
  obtains f d where "r = of_int f + d" and "0 \<le> d" and "d < 1"
    and "round_half_even r
      = (if d < 1 / 2 then f else if 1 / 2 < d then f + 1 else if even f then f else f + 1)"
proof -
  define f where "f = \<lfloor>r\<rfloor>"
  define d where "d = r - of_int f"
  have "0 \<le> d" and "d < 1"
    unfolding d_def f_def by linarith+
  moreover have "r = of_int f + d"
    unfolding d_def by simp
  moreover have "round_half_even r
      = (if d < 1 / 2 then f else if 1 / 2 < d then f + 1 else if even f then f else f + 1)"
    unfolding round_half_even_def Let_def f_def d_def by simp
  ultimately show thesis
    using that by blast
qed

lemma round_half_even_near: "\<bar>of_int (round_half_even r) - r\<bar> \<le> 1 / 2"
proof -
  obtain f d where "r = of_int f + d" and "0 \<le> d" and "d < 1"
    and "round_half_even r
      = (if d < 1 / 2 then f else if 1 / 2 < d then f + 1 else if even f then f else f + 1)"
    by (rule round_half_even_cases)
  then show ?thesis
    by (auto simp: abs_if)
qed

lemma round_half_even_tie:
  assumes "\<bar>of_int (round_half_even r) - r\<bar> = 1 / 2"
  shows "even (round_half_even r)"
proof -
  obtain f d where "r = of_int f + d" and "0 \<le> d" and "d < 1"
    and "round_half_even r
      = (if d < 1 / 2 then f else if 1 / 2 < d then f + 1 else if even f then f else f + 1)"
    by (rule round_half_even_cases)
  with assms show ?thesis
    by (auto simp: abs_if split: if_splits)
qed

lemma rounds_to_integer_round_half_even: "rounds_to_integer r (round_half_even r)"
  unfolding rounds_to_integer_def using round_half_even_near round_half_even_tie by blast

lemma int_apart:
  fixes n k :: int and r :: rat
  assumes "n \<noteq> k"
  shows "1 \<le> \<bar>of_int n - r\<bar> + \<bar>of_int k - r\<bar>"
proof -
  from assms have "1 \<le> \<bar>n - k\<bar>"
    by linarith
  then have "(1 :: rat) \<le> of_int \<bar>n - k\<bar>"
    by linarith
  also have "\<dots> = \<bar>(of_int n - r) - (of_int k - r)\<bar>"
    by simp
  also have "\<dots> \<le> \<bar>of_int n - r\<bar> + \<bar>of_int k - r\<bar>"
    by (rule abs_triangle_ineq4)
  finally show ?thesis .
qed

lemma round_half_even_nearest:
  "\<bar>of_int (round_half_even r) - r\<bar> \<le> \<bar>of_int n - r\<bar>"
proof (cases "n = round_half_even r")
  case True
  then show ?thesis
    by simp
next
  case False
  from int_apart [OF this, of r] round_half_even_near [of r] show ?thesis
    by linarith
qed

lemma round_half_even_other:
  assumes "n \<noteq> round_half_even r" and "\<bar>of_int n - r\<bar> = \<bar>of_int (round_half_even r) - r\<bar>"
  shows "even (round_half_even r)" and "\<bar>n - round_half_even r\<bar> = 1"
proof -
  let ?k = "round_half_even r"
  from int_apart [OF assms(1), of r] assms(2) round_half_even_near [of r]
  have h: "\<bar>of_int ?k - r\<bar> = 1 / 2"
    by linarith
  then show "even ?k"
    by (rule round_half_even_tie)
  have "of_int \<bar>n - ?k\<bar> = \<bar>(of_int n - r) - (of_int ?k - r)\<bar>"
    by simp
  also have "\<dots> \<le> \<bar>of_int n - r\<bar> + \<bar>of_int ?k - r\<bar>"
    by (rule abs_triangle_ineq4)
  also have "\<dots> = 1"
    using assms(2) h by simp
  finally have "\<bar>n - ?k\<bar> \<le> 1"
    by linarith
  with assms(1) show "\<bar>n - ?k\<bar> = 1"
    by linarith
qed

lemma round_half_even_ge: "of_int m \<le> r \<Longrightarrow> m \<le> round_half_even r"
proof -
  assume "of_int m \<le> r"
  then have "m \<le> \<lfloor>r\<rfloor>"
    by (simp add: le_floor_iff)
  with round_half_even_floor(1) [of r] show ?thesis
    by linarith
qed

lemma round_half_even_le: "r < of_int m \<Longrightarrow> round_half_even r \<le> m"
proof -
  assume "r < of_int m"
  then have "\<lfloor>r\<rfloor> < m"
    by (simp add: floor_less_iff)
  with round_half_even_floor(2) [of r] show ?thesis
    by linarith
qed

subsection \<open>The binade of a quotient\<close>

lemma bit_length_bounds:
  "0 < n \<Longrightarrow> 2 ^ (bit_length n - 1) \<le> n \<and> n < 2 ^ bit_length n"
proof (induction n rule: bit_length.induct)
  case (1 n)
  show ?case
  proof (cases "n div 2 = 0")
    case True
    with "1.prems" have "n = 1"
      by linarith
    then show ?thesis
      by (simp add: bit_length.simps)
  next
    case False
    then have pos: "0 < n div 2"
      by simp
    from "1.prems" have n: "n \<noteq> 0"
      by simp
    from "1.IH" [OF n pos] have lo: "2 ^ (bit_length (n div 2) - 1) \<le> n div 2"
      and hi: "n div 2 < 2 ^ bit_length (n div 2)"
      by simp_all
    have b: "bit_length n = Suc (bit_length (n div 2))"
      using n by (simp add: bit_length.simps)
    have "0 < bit_length (n div 2)"
      using pos by (simp add: bit_length.simps)
    then have "(2 :: nat) ^ bit_length (n div 2) = 2 * 2 ^ (bit_length (n div 2) - 1)"
      by (cases "bit_length (n div 2)") simp_all
    also have "\<dots> \<le> 2 * (n div 2)"
      using lo by simp
    also have "\<dots> \<le> n"
      by simp
    finally have 1: "2 ^ (bit_length n - 1) \<le> n"
      unfolding b by simp
    have "n < 2 * (n div 2) + 2"
      by linarith
    also have "\<dots> \<le> 2 * 2 ^ bit_length (n div 2)"
      using hi by simp
    finally have 2: "n < 2 ^ bit_length n"
      unfolding b by simp
    from 1 2 show ?thesis ..
  qed
qed

lemma bit_length_powi:
  assumes "0 < n"
  shows "2 powi (int (bit_length n) - 1) \<le> (of_nat n :: rat)"
    and "(of_nat n :: rat) < 2 powi int (bit_length n)"
proof -
  from bit_length_bounds [OF assms] have lo: "2 ^ (bit_length n - 1) \<le> n"
    and hi: "n < 2 ^ bit_length n"
    by simp_all
  have "0 < bit_length n"
    using assms by (simp add: bit_length.simps)
  then have "int (bit_length n) - 1 = int (bit_length n - 1)"
    by simp
  then have "(2 :: rat) powi (int (bit_length n) - 1) = 2 ^ (bit_length n - 1)"
    by (simp only: power_int_of_nat)
  also have "\<dots> = of_nat (2 ^ (bit_length n - 1))"
    by simp
  also have "\<dots> \<le> of_nat n"
    using lo by (simp only: of_nat_le_iff)
  finally show "2 powi (int (bit_length n) - 1) \<le> (of_nat n :: rat)" .
  have "(of_nat n :: rat) < of_nat (2 ^ bit_length n)"
    using hi by (simp only: of_nat_less_iff)
  also have "\<dots> = 2 powi int (bit_length n)"
    by simp
  finally show "(of_nat n :: rat) < 2 powi int (bit_length n)" .
qed

lemma powi_add: "(2 :: rat) powi (m + n) = 2 powi m * 2 powi n"
  by (simp add: power_int_add)

lemma powi_pos: "0 < (2 :: rat) powi m"
  by simp

lemma powi_mono: "m \<le> n \<Longrightarrow> (2 :: rat) powi m \<le> 2 powi n"
  by (simp add: power_int_increasing)

lemma powi_strict_mono: "m < n \<Longrightarrow> (2 :: rat) powi m < 2 powi n"
  by (simp add: power_int_strict_increasing)

lemma binade:
  fixes a b :: nat
  assumes "0 < a" and "0 < b"
  defines "d \<equiv> int (bit_length a) - int (bit_length b)"
  defines "e \<equiv> (if 2 powi d * of_nat b \<le> (of_nat a :: rat) then d else d - 1)"
  shows "2 powi e * of_nat b \<le> (of_nat a :: rat)"
    and "(of_nat a :: rat) < 2 powi (e + 1) * of_nat b"
proof -
  let ?la = "int (bit_length a)" and ?lb = "int (bit_length b)"
  have b: "0 < (of_nat b :: rat)"
    using assms(2) by simp
  show "2 powi e * of_nat b \<le> (of_nat a :: rat)"
  proof (cases "2 powi d * of_nat b \<le> (of_nat a :: rat)")
    case True
    then show ?thesis
      unfolding e_def by simp
  next
    case False
    have "2 powi (d - 1) * (of_nat b :: rat) \<le> 2 powi (d - 1) * 2 powi ?lb"
      using bit_length_powi(2) [OF assms(2)] by simp
    also have "\<dots> = 2 powi (?la - 1)"
      unfolding powi_add [symmetric] d_def by simp
    also have "\<dots> \<le> of_nat a"
      by (rule bit_length_powi(1) [OF assms(1)])
    finally show ?thesis
      using False unfolding e_def by simp
  qed
  show "(of_nat a :: rat) < 2 powi (e + 1) * of_nat b"
  proof (cases "2 powi d * of_nat b \<le> (of_nat a :: rat)")
    case False
    then show ?thesis
      unfolding e_def by simp
  next
    case True
    have "(of_nat a :: rat) < 2 powi ?la"
      by (rule bit_length_powi(2) [OF assms(1)])
    also have "\<dots> = 2 powi (d + 1) * 2 powi (?lb - 1)"
      unfolding powi_add [symmetric] d_def by simp
    also have "\<dots> \<le> 2 powi (d + 1) * of_nat b"
      using bit_length_powi(1) [OF assms(2)] by simp
    finally show ?thesis
      using True unfolding e_def by simp
  qed
qed

subsection \<open>The conversion to binary64 is correctly rounded\<close>

lemma powi_less_cancel: "(2 :: rat) powi m < 2 powi n \<Longrightarrow> m < n"
proof (rule ccontr)
  assume "(2 :: rat) powi m < 2 powi n" and "\<not> m < n"
  then have "n \<le> m"
    by simp
  then have "(2 :: rat) powi n \<le> 2 powi m"
    by (rule powi_mono)
  with \<open>(2 :: rat) powi m < 2 powi n\<close> show False
    by simp
qed

lemma powi_nonneg_int: "0 \<le> k \<Longrightarrow> (2 :: rat) powi k = of_int (2 ^ nat k)"
  by (simp add: power_int_def)

lemma scaled_distance:
  fixes c t :: rat
  assumes "0 < c"
  shows "\<bar>of_int n * c - t * c\<bar> = \<bar>of_int n - t\<bar> * c"
proof -
  have "of_int n * c - t * c = (of_int n - t) * c"
    by (simp add: algebra_simps)
  then show ?thesis
    using assms by (simp add: abs_mult)
qed

lemma binary64_zero: "binary64 0"
  unfolding binary64_def by (rule exI [of _ 0], rule exI [of _ 0]) simp

lemma rounds_to_binary64_zero: "rounds_to_binary64 0 0"
  unfolding rounds_to_binary64_def using binary64_zero by auto

lemma grid_rounds:
  fixes r :: rat
  assumes lo: "2 powi e \<le> r" and hi: "r < 2 powi (e + 1)"
    and q: "q = max (e - 52) (- 1074)"
    and y: "y = of_int (round_half_even (r / 2 powi q)) * 2 powi q"
    and fin: "y < 2 ^ 1024"
  shows "rounds_to_binary64 r y"
proof -
  define t where "t = r / 2 powi q"
  define N where "N = round_half_even t"
  have c: "0 < (2 :: rat) powi q"
    by (rule powi_pos)
  have r: "r = t * 2 powi q"
    unfolding t_def by simp
  have yN: "y = of_int N * 2 powi q"
    unfolding y N_def t_def ..
  have q_cases: "q = e - 52 \<or> q = - 1074" and q_ge: "e - 52 \<le> q" and q_min: "- 1074 \<le> q"
    unfolding q by auto
  have dist: "\<bar>of_int n * 2 powi q - r\<bar> = \<bar>of_int n - t\<bar> * 2 powi q" for n
    unfolding r by (rule scaled_distance [OF c])
  have near: "\<bar>y - r\<bar> \<le> \<bar>of_int n * 2 powi q - r\<bar>" for n
  proof -
    have "\<bar>of_int N - t\<bar> \<le> \<bar>of_int n - t\<bar>"
      unfolding N_def by (rule round_half_even_nearest)
    then have "\<bar>of_int N - t\<bar> * 2 powi q \<le> \<bar>of_int n - t\<bar> * 2 powi q"
      using c by (simp only: mult_le_cancel_right_pos)
    then show ?thesis
      unfolding yN dist .
  qed
  have t_lo: "2 powi (e - q) \<le> t"
  proof -
    have "2 powi (e - q) * 2 powi q = (2 :: rat) powi e"
      unfolding powi_add [symmetric] by simp
    with lo have "2 powi (e - q) * 2 powi q \<le> t * 2 powi q"
      unfolding r [symmetric] by simp
    then show ?thesis
      using c by (simp only: mult_le_cancel_right_pos)
  qed
  have t_hi: "t < 2 ^ 53"
  proof -
    have "t * 2 powi q < 2 powi (e + 1)"
      using hi unfolding r .
    also have "\<dots> = 2 powi (e + 1 - q) * 2 powi q"
      unfolding powi_add [symmetric] by simp
    finally have "t < 2 powi (e + 1 - q)"
      using c by (simp only: mult_less_cancel_right_pos)
    also have "\<dots> \<le> 2 powi 53"
      using q_ge by (intro powi_mono) simp
    finally show ?thesis
      by simp
  qed
  have "0 \<le> t"
    using t_lo powi_pos [of "e - q"] by linarith
  then have "of_int 0 \<le> t"
    by simp
  then have N_nonneg: "0 \<le> N"
    unfolding N_def by (rule round_half_even_ge)
  have "t < of_int (2 ^ 53)"
    using t_hi by simp
  then have N_le: "N \<le> 2 ^ 53"
    unfolding N_def by (rule round_half_even_le)
  have is_double: "binary64 y"
  proof (cases "N = 2 ^ 53")
    case True
    then have y53: "y = 2 powi (53 + q)"
      unfolding yN powi_add by simp
    with fin have "(2 :: rat) powi (53 + q) < 2 powi 1024"
      by simp
    then have "53 + q < 1024"
      by (rule powi_less_cancel)
    then have "q + 1 \<le> 971" and "- 1074 \<le> q + 1"
      using q_min by simp_all
    moreover have "y = of_int (2 ^ 52) * 2 powi (q + 1)"
      unfolding y53 by (simp add: powi_add)
    moreover have "\<bar>2 ^ 52 :: int\<bar> < 2 ^ 53"
      by simp
    ultimately show ?thesis
      unfolding binary64_def by blast
  next
    case False
    with N_le N_nonneg have m: "\<bar>N\<bar> < 2 ^ 53"
      by simp
    have "q \<le> 971"
    proof (cases "q = - 1074")
      case True
      then show ?thesis
        by simp
    next
      case False
      with q_cases have qe: "q = e - 52"
        by simp
      have "of_int (2 ^ 52) = (2 :: rat) powi (e - q)"
        unfolding qe by simp
      also have "\<dots> \<le> t"
        by (rule t_lo)
      finally have "2 ^ 52 \<le> N"
        unfolding N_def by (rule round_half_even_ge)
      then have "(of_int (2 ^ 52) :: rat) \<le> of_int N"
        by (simp only: of_int_le_iff)
      then have le: "of_int (2 ^ 52) * 2 powi q \<le> of_int N * (2 :: rat) powi q"
        using c by (simp only: mult_le_cancel_right_pos)
      have "(2 :: rat) powi e = of_int (2 ^ 52) * 2 powi q"
        unfolding qe by (simp add: power_int_diff)
      also note le
      finally have "(2 :: rat) powi e \<le> y"
        unfolding yN .
      with fin have "(2 :: rat) powi e < 2 powi 1024"
        by simp
      then have "e < 1024"
        by (rule powi_less_cancel)
      then show ?thesis
        unfolding qe by simp
    qed
    with m q_min yN show ?thesis
      unfolding binary64_def by blast
  qed
  have grid: "(\<exists>n. z = of_int n * 2 powi q) \<or> \<bar>y - r\<bar> < \<bar>z - r\<bar>" if "binary64 z" for z
  proof -
    from that obtain m p where m: "\<bar>m\<bar> < 2 ^ 53" and p: "- 1074 \<le> p"
      and z: "z = of_int m * 2 powi p"
      unfolding binary64_def by blast
    show ?thesis
    proof (cases "q \<le> p")
      case True
      have "(2 :: rat) powi p = 2 powi (p - q) * 2 powi q"
        unfolding powi_add [symmetric] by simp
      also have "\<dots> = of_int (2 ^ nat (p - q)) * 2 powi q"
        using True by (simp only: powi_nonneg_int diff_ge_0_iff_ge)
      finally have "z = of_int (m * 2 ^ nat (p - q)) * 2 powi q"
        unfolding z by simp
      then show ?thesis
        by blast
    next
      case False
      with p q_cases have qe: "q = e - 52" and pe: "53 + p \<le> e"
        by simp_all
      have "\<bar>m\<bar> \<le> 2 ^ 53"
        using m by simp
      then have "(of_int \<bar>m\<bar> :: rat) \<le> of_int (2 ^ 53)"
        by (simp only: of_int_le_iff)
      then have "\<bar>of_int m :: rat\<bar> \<le> 2 powi 53"
        by simp
      then have "\<bar>of_int m :: rat\<bar> * 2 powi p \<le> 2 powi 53 * 2 powi p"
        using powi_pos [of p] by (simp only: mult_le_cancel_right_pos)
      also have "\<dots> = 2 powi (53 + p)"
        by (simp only: powi_add)
      also have "\<dots> \<le> 2 powi e"
        using pe by (rule powi_mono)
      finally have zb: "\<bar>z\<bar> \<le> 2 powi e"
        unfolding z by (simp add: abs_mult)
      have ne: "\<bar>of_int m :: rat\<bar> \<noteq> 2 powi 53"
      proof
        assume "\<bar>of_int m :: rat\<bar> = 2 powi 53"
        then have "(of_int \<bar>m\<bar> :: rat) = of_int (2 ^ 53)"
          by simp
        then have "\<bar>m\<bar> = 2 ^ 53"
          by (simp only: of_int_eq_iff)
        with m show False
          by simp
      qed
      have "\<bar>z\<bar> \<noteq> 2 powi e"
      proof
        assume "\<bar>z\<bar> = 2 powi e"
        then have "\<bar>of_int m :: rat\<bar> * 2 powi p = 2 powi (e - p) * 2 powi p"
          unfolding z powi_add [symmetric] by (simp add: abs_mult)
        then have "\<bar>of_int m :: rat\<bar> = 2 powi (e - p)"
          using powi_pos [of p] by simp
        moreover have "(2 :: rat) powi 53 \<le> 2 powi (e - p)"
          using pe by (intro powi_mono) simp
        ultimately have "(2 :: rat) powi 53 \<le> \<bar>of_int m\<bar>"
          by simp
        with \<open>\<bar>of_int m :: rat\<bar> \<le> 2 powi 53\<close> ne show False
          by simp
      qed
      with zb have "\<bar>z\<bar> < 2 powi e"
        by simp
      with lo have "\<bar>of_int (2 ^ 52) * 2 powi q - r\<bar> < \<bar>z - r\<bar>"
        unfolding qe by (simp add: power_int_diff abs_if split: if_splits)
      with near [of "2 ^ 52"] show ?thesis
        by simp
    qed
  qed
  have nearest: "\<forall>z. binary64 z \<longrightarrow> \<bar>y - r\<bar> \<le> \<bar>z - r\<bar>"
  proof (intro allI impI)
    fix z
    assume "binary64 z"
    from grid [OF this] near show "\<bar>y - r\<bar> \<le> \<bar>z - r\<bar>"
      by auto
  qed
  have ties: "\<forall>z. binary64 z \<and> z \<noteq> y \<and> \<bar>z - r\<bar> = \<bar>y - r\<bar> \<longrightarrow> (\<exists>n. y = of_int (2 * n) * \<bar>z - y\<bar>)"
  proof (intro allI impI)
    fix z
    assume a: "binary64 z \<and> z \<noteq> y \<and> \<bar>z - r\<bar> = \<bar>y - r\<bar>"
    with grid [of z] obtain n where z: "z = of_int n * 2 powi q"
      by auto
    from a have "n \<noteq> N"
      unfolding z yN by auto
    moreover have "\<bar>of_int n - t\<bar> = \<bar>of_int N - t\<bar>"
    proof -
      from a have "\<bar>of_int n - t\<bar> * 2 powi q = \<bar>of_int N - t\<bar> * 2 powi q"
        unfolding z yN dist by simp
      then show ?thesis
        using c by simp
    qed
    ultimately have "even N" and one: "\<bar>n - N\<bar> = 1"
      unfolding N_def by (rule round_half_even_other)+
    then obtain n' where n': "N = 2 * n'"
      by (auto elim: evenE)
    have "z - y = of_int (n - N) * 2 powi q"
      unfolding z yN by (simp add: algebra_simps)
    then have "\<bar>z - y\<bar> = of_int \<bar>n - N\<bar> * 2 powi q"
      by (simp add: abs_mult)
    then have "\<bar>z - y\<bar> = 2 powi q"
      unfolding one by simp
    then have "y = of_int (2 * n') * \<bar>z - y\<bar>"
      unfolding yN n' by simp
    then show "\<exists>n. y = of_int (2 * n) * \<bar>z - y\<bar>"
      by blast
  qed
  from is_double nearest ties show ?thesis
    unfolding rounds_to_binary64_def by blast
qed

lemma nearest_double_rounds:
  assumes "0 < b" and "nearest_double a b = Some y"
  shows "rounds_to_binary64 (of_nat a / of_nat b) y"
proof (cases "a = 0")
  case True
  with assms(2) have "y = 0"
    by (simp add: nearest_double_def)
  with True show ?thesis
    by (simp add: rounds_to_binary64_zero)
next
  case False
  then have a: "0 < a"
    by simp
  define d where "d = int (bit_length a) - int (bit_length b)"
  define e where "e = (if 2 powi d * of_nat b \<le> (of_nat a :: rat) then d else d - 1)"
  define q where "q = max (e - 52) (- 1074)"
  define r :: rat where "r = of_nat a / of_nat b"
  have b: "0 < (of_nat b :: rat)"
    using assms(1) by simp
  have t: "of_nat a / (of_nat b * 2 powi q) = r / 2 powi q"
    unfolding r_def by simp
  from assms(2) False
  have y: "y = of_int (round_half_even (r / 2 powi q)) * 2 powi q" and fin: "y < 2 ^ 1024"
    unfolding nearest_double_def Let_def d_def [symmetric] e_def [symmetric] q_def [symmetric] t
    by (auto split: if_splits)
  have "2 powi e * of_nat b \<le> (of_nat a :: rat)"
    and "(of_nat a :: rat) < 2 powi (e + 1) * of_nat b"
    unfolding e_def d_def by (rule binade [OF a assms(1)])+
  then have lo: "2 powi e \<le> r" and hi: "r < 2 powi (e + 1)"
    unfolding r_def using b by (simp_all add: pos_le_divide_eq pos_divide_less_eq)
  from lo hi q_def y fin show ?thesis
    unfolding r_def [symmetric] by (rule grid_rounds)
qed

lemma nearest_double_nonneg:
  assumes "nearest_double a b = Some y"
  shows "0 \<le> y"
proof (cases "a = 0")
  case True
  with assms show ?thesis
    by (simp add: nearest_double_def)
next
  case False
  have "0 \<le> of_nat a / (of_nat b * (2 :: rat) powi q)" for q
    by simp
  then have "of_int 0 \<le> of_nat a / (of_nat b * (2 :: rat) powi q)" for q
    by simp
  then have "0 \<le> round_half_even (of_nat a / (of_nat b * (2 :: rat) powi q))" for q
    by (rule round_half_even_ge)
  with assms False show ?thesis
    unfolding nearest_double_def Let_def by (auto split: if_splits)
qed

subsection \<open>The duration\<close>

lemma true_div_rounds:
  assumes "true_div (int n) b = Inr x" and "0 < b"
  shows "\<exists>y. x = Double False y \<and> 0 \<le> y \<and> rounds_to_binary64 (of_nat n / of_int b) y"
proof -
  from assms obtain y where n: "nearest_double n (nat b) = Some y" and x: "x = Double False y"
    by (auto simp: true_div_def split: option.splits)
  have "0 < nat b"
    using assms(2) by simp
  from nearest_double_rounds [OF this n] assms(2)
  have "rounds_to_binary64 (of_nat n / of_int b) y"
    by simp
  with x nearest_double_nonneg [OF n] show ?thesis
    by blast
qed

lemma py_round2_rounds:
  assumes "py_round2 (Double sg m) = Inr z" and "0 \<le> m"
  shows "\<exists>k y. z = Double sg y \<and> rounds_to_integer (100 * m) k
           \<and> rounds_to_binary64 (of_int k / 100) y"
proof -
  define k where "k = round_half_even (m * 100)"
  from assms(1) obtain y where n: "nearest_double (nat k) 100 = Some y" and z: "z = Double sg y"
    unfolding k_def by (auto simp: py_round2_def split: option.splits)
  have "of_int 0 \<le> m * 100"
    using assms(2) by simp
  then have "0 \<le> k"
    unfolding k_def by (rule round_half_even_ge)
  then have "(of_nat (nat k) :: rat) = of_int k"
    by simp
  with nearest_double_rounds [OF _ n] have "rounds_to_binary64 (of_int k / 100) y"
    by simp
  moreover have "rounds_to_integer (100 * m) k"
    unfolding k_def mult.commute [of 100 m] by (rule rounds_to_integer_round_half_even)
  ultimately show ?thesis
    using z by blast
qed

lemma whole_bytes: "8 dvd bits \<Longrightarrow> (of_int (bits div 8) :: rat) = of_int bits / 8"
  by (auto elim!: dvdE)

text \<open>
  Line 138 computes the bytes per sample with the floor division \<open>bits_per_sample_int // 8\<close>.
  For 12 bits, sample rate 1, one channel and a body of three bytes the handler answers a
  duration of 3 seconds, where the formula with the exact quotient \<open>12 / 8\<close> gives 2.
\<close>

theorem duration_exact_bits_counterexample:
  "http_code (reply (receive_audio
       (script_request [''x-audio-sample-rates'' \<mapsto> ''1'', ''x-audio-bits'' \<mapsto> ''12''] None)
       ''20240101_120000'' Written Map.empty [Bytes ''abc''])) = 200
   \<and> map_option duration_seconds (details (reply (receive_audio
       (script_request [''x-audio-sample-rates'' \<mapsto> ''1'', ''x-audio-bits'' \<mapsto> ''12''] None)
       ''20240101_120000'' Written Map.empty [Bytes ''abc'']))) = Some (Double False 3)
   \<and> spec_quotient 1 12 1 (length ''abc'') = 2"
  by (simp add: eval_defs spec_quotient_def)

text \<open>
  Claim C3, as the code has it.  Take an accepted upload whose headers are the positive
  integers \<open>sample_rate\<close>, \<open>bits\<close> and \<open>channels\<close>.  Its body is not empty,
  \<open>size_bytes\<close> is its length, and the bit depth is at least 8.  The quotient that the handler computes is
  \<open>byte_length / (sample_rate * channels * (bits // 8))\<close>, with the floor division of the
  bit depth by 8; when the bit depth is a multiple of 8 this is the quotient of the
  specification.  The computation is in binary floating point: the quotient is rounded to
  the nearest binary64 number \<open>x\<close>; \<open>100 * x\<close> is rounded to the nearest integer \<open>k\<close>, which
  is the rounding of \<open>x\<close> to two decimals; and \<open>duration_seconds\<close> is \<open>k / 100\<close> rounded to
  the nearest binary64 number, all three roundings with ties to even.
\<close>

theorem duration_uses_whole_bytes:
  fixes req :: "'s request" and ts :: string and wr :: write_result
    and fs :: "string \<rightharpoonup> bytes" and s :: 's
  defines "out \<equiv> receive_audio req ts wr fs s"
  assumes "http_code (reply out) = 200"
    and "py_int (sample_rate_of req) = Inr sr"
    and "py_int (bits_per_sample_of req) = Inr bits"
    and "py_int (channels_of req) = Inr ch"
    and "0 < sr" and "0 < bits" and "0 < ch"
  shows "\<exists>audio_data x k y.
           fst (read_audio req s) = Inr audio_data \<and> audio_data \<noteq> [] \<and> 8 \<le> bits
         \<and> map_option size_bytes (details (reply out)) = Some (length audio_data)
         \<and> map_option duration_seconds (details (reply out)) = Some (Double False y)
         \<and> rounds_to_binary64
             (of_nat (length audio_data) / (of_int sr * of_int ch * of_int (bits div 8))) x
         \<and> rounds_to_integer (100 * x) k
         \<and> rounds_to_binary64 (of_int k / 100) y
         \<and> (8 dvd bits \<longrightarrow>
              of_nat (length audio_data) / (of_int sr * of_int ch * of_int (bits div 8))
                = spec_quotient sr bits ch (length audio_data))"
proof (cases rule: read_audio_cases [of req s])
  case (failed e s' lg)
  with assms(2) show ?thesis
    unfolding out_def by (simp add: receive_audio_failed error_response_def)
next
  case (read d s' lg)
  have d: "d \<noteq> []"
  proof
    assume "d = []"
    with read assms(2) show False
      unfolding out_def by (simp add: receive_audio_read store_and_reply_empty error_response_def)
  qed
  have wr: "wr = Written"
  proof (cases wr)
    case (Write_raised e written)
    with read d assms(2) show ?thesis
      unfolding out_def
      by (simp add: receive_audio_read store_and_reply_write_raised error_response_def)
  qed
  obtain z where z: "rounded_duration (sample_rate_of req) (bits_per_sample_of req)
      (channels_of req) (length d) = Inr z"
  proof (cases "rounded_duration (sample_rate_of req) (bits_per_sample_of req)
      (channels_of req) (length d)")
    case (Inl e)
    with read d wr assms(2) show ?thesis
      unfolding out_def by (simp add: receive_audio_read store_and_reply_error error_response_def)
  next
    case (Inr z)
    with that show ?thesis .
  qed
  have details: "map_option size_bytes (details (reply out)) = Some (length d)"
    "map_option duration_seconds (details (reply out)) = Some z"
    using read d wr z unfolding out_def
    by (simp_all add: receive_audio_read store_and_reply_success)
  define den where "den = sr * (bits div 8 * ch)"
  from z obtain x' where t: "true_div (int (length d)) den = Inr x'" and p: "py_round2 x' = Inr z"
    unfolding rounded_duration_def duration_def Let_def den_def assms(3-5)
    by (auto split: sum.splits)
  have "den \<noteq> 0"
  proof
    assume "den = 0"
    with t show False
      by (simp add: true_div_zero)
  qed
  then have "bits div 8 \<noteq> 0"
    unfolding den_def by simp
  with assms(7) have bits: "8 \<le> bits"
    by (simp add: div_eq_0_iff)
  then have "0 < bits div 8"
    by simp
  then have den: "0 < den"
    unfolding den_def using assms(6,8) by simp
  have q: "(of_int den :: rat) = of_int sr * of_int ch * of_int (bits div 8)"
    unfolding den_def by simp
  from true_div_rounds [OF t den] obtain x where x': "x' = Double False x" and x0: "0 \<le> x"
    and x: "rounds_to_binary64 (of_nat (length d) / of_int den) x"
    by blast
  from py_round2_rounds [OF p [unfolded x'] x0] obtain k y where y: "z = Double False y"
    and k: "rounds_to_integer (100 * x) k" and yk: "rounds_to_binary64 (of_int k / 100) y"
    by blast
  have spec: "8 dvd bits \<longrightarrow>
      of_nat (length d) / (of_int sr * of_int ch * of_int (bits div 8))
        = spec_quotient sr bits ch (length d)"
    by (simp add: spec_quotient_def whole_bytes)
  from read have "fst (read_audio req s) = Inr d"
    by simp
  with d bits details x k yk spec show ?thesis
    unfolding y q by blast
qed

theorem duration_uses_whole_bytes_witness:
  "http_code (reply (receive_audio (script_request Map.empty None) ''20240101_120000'' Written
      Map.empty [Bytes (replicate 160 CHR ''a'')])) = 200
   \<and> py_int (sample_rate_of (script_request Map.empty None)) = Inr 16000
   \<and> py_int (bits_per_sample_of (script_request Map.empty None)) = Inr 16
   \<and> py_int (channels_of (script_request Map.empty None)) = Inr 1
   \<and> map_option duration_seconds (details (reply (receive_audio (script_request Map.empty None)
        ''20240101_120000'' Written Map.empty [Bytes (replicate 160 CHR ''a'')])))
       = Some (Double False (5764607523034235 / 2 ^ 59))
   \<and> (\<exists>x k. rounds_to_binary64 (160 / (16000 * 1 * 2)) x \<and> rounds_to_integer (100 * x) k
          \<and> rounds_to_binary64 (of_int k / 100) (5764607523034235 / 2 ^ 59))"
proof -
  let ?req = "script_request Map.empty None"
  let ?out = "receive_audio ?req ''20240101_120000'' Written Map.empty
      [Bytes (replicate 160 CHR ''a'')]"
  have h1: "http_code (reply ?out) = 200"
    by (simp add: eval_defs)
  have h2: "py_int (sample_rate_of ?req) = Inr 16000"
    and h3: "py_int (bits_per_sample_of ?req) = Inr 16"
    and h4: "py_int (channels_of ?req) = Inr 1"
    by (simp_all add: eval_defs)
  have v: "map_option duration_seconds (details (reply ?out))
      = Some (Double False (5764607523034235 / 2 ^ 59))"
    by (simp add: eval_defs)
  have r: "fst (read_audio ?req [Bytes (replicate 160 CHR ''a'')]) = Inr (replicate 160 CHR ''a'')"
    by (simp add: eval_defs)
  from duration_uses_whole_bytes [OF h1 h2 h3 h4]
  obtain audio_data x k y where a: "fst (read_audio ?req [Bytes (replicate 160 CHR ''a'')])
        = Inr audio_data"
    and y: "map_option duration_seconds (details (reply ?out)) = Some (Double False y)"
    and x: "rounds_to_binary64 (of_nat (length audio_data)
        / (of_int 16000 * of_int 1 * of_int (16 div 8))) x"
    and k: "rounds_to_integer (100 * x) k" and yk: "rounds_to_binary64 (of_int k / 100) y"
    by auto
  from a r have "audio_data = replicate 160 CHR ''a''"
    by simp
  then have q: "of_nat (length audio_data) / (of_int 16000 * of_int 1 * of_int (16 div 8))
      = (160 / (16000 * 1 * 2) :: rat)"
    by simp
  from y v have "Some (Double False y) = Some (Double False (5764607523034235 / 2 ^ 59))"
    by (rule trans [OF sym])
  then have "y = 5764607523034235 / 2 ^ 59"
    by (simp only: option.inject double.inject simp_thms)
  with x k yk have "rounds_to_binary64 (160 / (16000 * 1 * 2)) x
      \<and> rounds_to_integer (100 * x) k
      \<and> rounds_to_binary64 (of_int k / 100) (5764607523034235 / 2 ^ 59)"
    unfolding q by (simp only: simp_thms)
  with h1 h2 h3 h4 v show ?thesis
    by blast
qed

subsection \<open>Uploads that are accepted\<close>

lemma divide_le_self:
  fixes x c :: rat
  assumes "1 \<le> c" and "0 \<le> x"
  shows "x / c \<le> x"
proof -
  from assms have "x * 1 \<le> x * c"
    by (rule mult_left_mono)
  moreover have "0 < c"
    using assms(1) by simp
  ultimately show ?thesis
    by (simp add: pos_divide_le_eq)
qed

lemma nearest_double_total:
  assumes "0 < b" and "(of_nat a / of_nat b :: rat) < 2 ^ n" and "n \<le> 1023"
  shows "\<exists>y. nearest_double a b = Some y \<and> y \<le> 2 ^ n"
proof (cases "a = 0")
  case True
  then show ?thesis
    by (simp add: nearest_double_def)
next
  case False
  then have a: "0 < a"
    by simp
  define d where "d = int (bit_length a) - int (bit_length b)"
  define e where "e = (if 2 powi d * of_nat b \<le> (of_nat a :: rat) then d else d - 1)"
  define q where "q = max (e - 52) (- 1074)"
  define r :: rat where "r = of_nat a / of_nat b"
  define t where "t = r / 2 powi q"
  define N where "N = round_half_even t"
  have b: "0 < (of_nat b :: rat)"
    using assms(1) by simp
  have c: "0 < (2 :: rat) powi q"
    by (rule powi_pos)
  have r: "r = t * 2 powi q"
    unfolding t_def by simp
  have "2 powi e * of_nat b \<le> (of_nat a :: rat)"
    and "(of_nat a :: rat) < 2 powi (e + 1) * of_nat b"
    unfolding e_def d_def by (rule binade [OF a assms(1)])+
  then have lo: "2 powi e \<le> r" and hi: "r < 2 powi (e + 1)"
    unfolding r_def using b by (simp_all add: pos_le_divide_eq pos_divide_less_eq)
  have "r < 2 powi int n"
    using assms(2) unfolding r_def by simp
  with lo have "(2 :: rat) powi e < 2 powi int n"
    by simp
  then have e: "e < int n"
    by (rule powi_less_cancel)
  have "t * 2 powi q < 2 powi (e + 1)"
    using hi unfolding r .
  also have "\<dots> = 2 powi (e + 1 - q) * 2 powi q"
    unfolding powi_add [symmetric] by simp
  finally have "t < 2 powi (e + 1 - q)"
    using c by (simp only: mult_less_cancel_right_pos)
  also have "\<dots> \<le> 2 powi 53"
    unfolding q_def by (intro powi_mono) simp
  finally have "t < of_int (2 ^ 53)"
    by simp
  then have "N \<le> 2 ^ 53"
    unfolding N_def by (rule round_half_even_le)
  then have "(of_int N :: rat) \<le> of_int (2 ^ 53)"
    by (simp only: of_int_le_iff)
  then have "of_int N * 2 powi q \<le> of_int (2 ^ 53) * (2 :: rat) powi q"
    using c by (simp only: mult_le_cancel_right_pos)
  also have "\<dots> = 2 powi (53 + q)"
    by (simp add: powi_add)
  also have "\<dots> \<le> 2 powi int n"
    using e unfolding q_def by (intro powi_mono) simp
  finally have y: "of_int N * 2 powi q \<le> (2 :: rat) ^ n"
    by simp
  also have "(2 :: rat) ^ n \<le> 2 ^ 1023"
    using assms(3) by (intro power_increasing) simp_all
  finally have "(of_int N :: rat) * 2 powi q < 2 ^ 1024"
    by simp
  moreover have "of_nat a / (of_nat b * 2 powi q) = t"
    unfolding t_def r_def by simp
  ultimately have "nearest_double a b = Some (of_int N * 2 powi q)"
    using False
    unfolding nearest_double_def Let_def d_def [symmetric] e_def [symmetric] q_def [symmetric]
      N_def
    by simp
  with y show ?thesis
    by blast
qed

lemma rounded_duration_total:
  assumes "py_int a = Inr sr" and "py_int b = Inr bits" and "py_int c = Inr ch"
    and "0 < sr" and "8 \<le> bits" and "0 < ch" and "n < 2 ^ 1000"
  shows "\<exists>y. rounded_duration a b c n = Inr (Double False y)"
proof -
  define den where "den = sr * (bits div 8 * ch)"
  have "0 < bits div 8"
    using assms(5) by simp
  then have den: "0 < den"
    unfolding den_def using assms(4,6) by simp
  then have "1 \<le> nat den"
    by simp
  then have "(of_nat 1 :: rat) \<le> of_nat (nat den)"
    by (simp only: of_nat_le_iff)
  then have "(1 :: rat) \<le> of_nat (nat den)"
    by simp
  then have "(of_nat n / of_nat (nat den) :: rat) \<le> of_nat n"
    by (rule divide_le_self) simp
  also have "\<dots> < of_nat (2 ^ 1000)"
    using assms(7) by (simp only: of_nat_less_iff)
  finally have "(of_nat n / of_nat (nat den) :: rat) < 2 ^ 1000"
    by simp
  with den obtain x where x: "nearest_double n (nat den) = Some x" and xb: "x \<le> 2 ^ 1000"
    using nearest_double_total [of "nat den" n 1000] by auto
  have x0: "0 \<le> x"
    using x by (rule nearest_double_nonneg)
  from x den have t: "true_div (int n) den = Inr (Double False x)"
    by (simp add: true_div_def)
  define k where "k = round_half_even (x * 100)"
  have "of_int 0 \<le> x * 100"
    using x0 by simp
  then have k0: "0 \<le> k"
    unfolding k_def by (rule round_half_even_ge)
  have "k \<le> \<lfloor>x * 100\<rfloor> + 1"
    unfolding k_def by (rule round_half_even_floor)
  then have "(of_int k :: rat) \<le> of_int (\<lfloor>x * 100\<rfloor> + 1)"
    by (simp only: of_int_le_iff)
  also have "\<dots> \<le> x * 100 + 1"
    by simp
  also have "\<dots> \<le> 2 ^ 1000 * 100 + 1"
    using xb by simp
  finally have "(of_int k :: rat) / 100 \<le> (2 ^ 1000 * 100 + 1) / 100"
    by (simp add: divide_right_mono)
  also have "\<dots> < 2 ^ 1001"
    by simp
  finally have "(of_nat (nat k) / of_nat 100 :: rat) < 2 ^ 1001"
    using k0 by simp
  then obtain y where "nearest_double (nat k) 100 = Some y"
    using nearest_double_total [of 100 "nat k" 1001] by auto
  then have "py_round2 (Double False x) = Inr (Double False y)"
    unfolding py_round2_def k_def by simp
  with t show ?thesis
    unfolding rounded_duration_def duration_def Let_def assms(1-3) den_def by simp
qed

text \<open>
  An upload with positive integer headers and a bit depth of at least 8 is accepted when
  its body is not empty and the write succeeds.  (The bound on the length only excludes
  quotients that are too large for a \<open>float\<close>.)
\<close>

lemma valid_upload_is_accepted:
  fixes req :: "'s request"
  assumes "fst (read_audio req s) = Inr audio_data" and "audio_data \<noteq> []"
    and "length audio_data < 2 ^ 1000"
    and "py_int (sample_rate_of req) = Inr sr"
    and "py_int (bits_per_sample_of req) = Inr bits"
    and "py_int (channels_of req) = Inr ch"
    and "0 < sr" and "8 \<le> bits" and "0 < ch"
  shows "http_code (reply (receive_audio req ts Written fs s)) = 200
       \<and> status (reply (receive_audio req ts Written fs s)) = ''success''"
proof -
  obtain s' lg where rd: "read_audio req s = (Inr audio_data, s', lg)"
    using assms(1) by (cases "read_audio req s") auto
  from rounded_duration_total [OF assms(4-9) assms(3)]
  obtain y where "rounded_duration (sample_rate_of req) (bits_per_sample_of req)
      (channels_of req) (length audio_data) = Inr (Double False y)"
    by blast
  with rd assms(2) show ?thesis
    by (simp add: receive_audio_read store_and_reply_success)
qed

end
